theory Spec2Isabelle
  imports Complex_Main "HOL-Library.Product_Lexorder"
begin

section \<open>Path finding between two anchor segments of an assembly graph\<close>

text \<open>
  A shallow embedding of \<^verbatim>\<open>unicycler/path_finding.py\<close>. Python integers are \<open>int\<close>,
  strings are \<open>string\<close>, dictionaries are maps, exceptions are values of the type
  \<open>error\<close>, and a function with a \<^verbatim>\<open>while\<close> loop returns an \<open>option\<close> whose value \<open>None\<close>
  means that the loop never exits. A Python float is the real number it denotes, and
  comparisons of floats are exact. The two float products that decide which records
  \<^verbatim>\<open>get_best_paths_for_seq\<close> returns and with which raw score (lines 70 and 81 of the
  source) are rounded by the interpreter; they are the product \<open>float_times\<close> of the
  context. The float arithmetic of the length bounds and of \<^verbatim>\<open>cull_paths\<close> is exact real
  arithmetic.
\<close>

subsection \<open>Data model\<close>

datatype error = TooManyPaths | KeyError | IndexError | ValueError

type_synonym path = "int list"

text \<open>A segment of the graph: the attribute \<^verbatim>\<open>depth\<close> and the method
  \<^verbatim>\<open>get_length_no_overlap(overlap)\<close> are all this module reads.\<close>

record segment =
  depth :: real
  get_length_no_overlap :: "int \<Rightarrow> int"

text \<open>The graph object. Its class is defined in another module, so the attributes and
  methods that this module uses are the fields: \<^verbatim>\<open>forward_links\<close> and \<^verbatim>\<open>segments\<close> are
  dictionaries, the rest are methods, taken as total functions.\<close>

record graph =
  forward_links :: "int \<rightharpoonup> int list"
  segments :: "int \<rightharpoonup> segment"
  overlap :: int
  get_path_length :: "path \<Rightarrow> int"
  get_path_sequence :: "path \<Rightarrow> string"
  seq_from_signed_seg_num :: "int \<Rightarrow> string"
  max_path_segment_count :: "int \<Rightarrow> real \<Rightarrow> int"

text \<open>The result of an alignment call. The wrappers return a comma-separated string or
  an empty string; the fields that this module parses from it are field 5 (an integer
  position in the second sequence), field 6 (the raw score, an integer) and field 7 (the
  scaled score, a float). The empty string is \<open>None\<close>.\<close>

record alignment =
  seq_end_pos :: int
  raw_score :: int
  scaled_score :: real

text \<open>The product of two floats as the interpreter computes it: the exact product
  rounded to the nearest float. Two facts about it are kept: a non-negative float times a
  float between 0 and 1 is not above the first operand (the exact product is not above it,
  the operand is a float, and rounding is monotone), and the product of 1 and a float is
  that float. The product is only ever applied to floats; on the other reals, where its
  value does not matter, it is taken to be the exact product, which has both properties.\<close>

typedef float_product =
  "{m :: real \<Rightarrow> real \<Rightarrow> real.
      (\<forall>x c. 0 \<le> x \<longrightarrow> 0 \<le> c \<longrightarrow> c \<le> 1 \<longrightarrow> m x c \<le> x) \<and> (\<forall>y. m 1 y = y)}"
  by (rule exI[of _ "\<lambda>x y. x * y"]) (simp add: mult_left_le)

setup_lifting type_definition_float_product

text \<open>The names that the module uses from outside: the constants of \<^verbatim>\<open>settings\<close>, the
  helpers of \<^verbatim>\<open>misc\<close>, the two alignment wrappers and the float product. The type \<open>'s\<close> is
  the scoring scheme, which is only passed through to the alignment wrappers.\<close>

record 's ctx =
  MIN_RELATIVE_PATH_LENGTH :: real
  MAX_RELATIVE_PATH_LENGTH :: real
  ALL_PATH_SEARCH_MAX_FINAL_PATHS :: int
  ALL_PATH_SEARCH_MAX_WORKING_PATHS :: int
  PROGRESSIVE_PATH_SEARCH_MAX_WORKING_PATHS :: int
  PROGRESSIVE_PATH_SEARCH_SCORE_FRACTION :: real
  weighted_average :: "real \<Rightarrow> real \<Rightarrow> int \<Rightarrow> int \<Rightarrow> real"
  reverse_complement :: "string \<Rightarrow> string"
  get_num_agreement :: "int \<Rightarrow> int \<Rightarrow> real"
  fully_global_alignment :: "string \<Rightarrow> string \<Rightarrow> 's \<Rightarrow> bool \<Rightarrow> int \<Rightarrow> alignment option"
  path_alignment :: "string \<Rightarrow> string \<Rightarrow> 's \<Rightarrow> bool \<Rightarrow> int \<Rightarrow> alignment option"
  float_times :: float_product

text \<open>\<open>fmul c x y\<close> is the float product \<^verbatim>\<open>x * y\<close>.\<close>

definition fmul :: "'s ctx \<Rightarrow> real \<Rightarrow> real \<Rightarrow> real" where
  "fmul c x y = Rep_float_product (float_times c) x y"

text \<open>A Candidate Score Record: the tuple (path, raw score, length discrepancy, scaled
  score) that \<^verbatim>\<open>get_best_paths_for_seq\<close> appends.\<close>

type_synonym candidate = "path \<times> real \<times> int \<times> real"


definition cand_raw :: "candidate \<Rightarrow> real" where
  "cand_raw x = fst (snd x)"

definition cand_discrepancy :: "candidate \<Rightarrow> int" where
  "cand_discrepancy x = fst (snd (snd x))"

definition cand_scaled :: "candidate \<Rightarrow> real" where
  "cand_scaled x = snd (snd (snd x))"

subsection \<open>Python primitives\<close>

text \<open>Python 3 \<^verbatim>\<open>int(round(x))\<close>: to the nearest integer, a tie to the even one.\<close>

definition py_round :: "real \<Rightarrow> int" where
  "py_round x =
     (let f = \<lfloor>x\<rfloor>; d = x - of_int f
      in if d < 1 / 2 then f else if 1 / 2 < d then f + 1 else if even f then f else f + 1)"

text \<open>A slice bound: a negative bound counts from the end, and every bound is clipped to
  the sequence.\<close>

definition py_bound :: "int \<Rightarrow> nat \<Rightarrow> nat" where
  "py_bound i n = (if i < 0 then nat (int n + i) else min (nat i) n)"

definition py_slice_from :: "'a list \<Rightarrow> int \<Rightarrow> 'a list" where
  "py_slice_from xs i = drop (py_bound i (length xs)) xs"

definition py_slice_to :: "'a list \<Rightarrow> int \<Rightarrow> 'a list" where
  "py_slice_to xs j = take (py_bound j (length xs)) xs"

definition py_slice :: "'a list \<Rightarrow> int \<Rightarrow> int \<Rightarrow> 'a list" where
  "py_slice xs i j = drop (py_bound i (length xs)) (take (py_bound j (length xs)) xs)"

text \<open>\<^verbatim>\<open>min\<close> of a sequence raises ValueError on the empty one.\<close>

definition py_min :: "int list \<Rightarrow> error + int" where
  "py_min xs = (if xs = [] then Inl ValueError else Inr (min_list xs))"

text \<open>\<^verbatim>\<open>path.count(next_seg) + path.count(-next_seg)\<close>.\<close>

definition count_so_far :: "path \<Rightarrow> int \<Rightarrow> int" where
  "count_so_far p s = int (count_list p s) + int (count_list p (- s))"

text \<open>The start/end depth that both searches compute from the two anchors; a segment
  missing from \<^verbatim>\<open>graph.segments\<close> is a KeyError.\<close>

definition start_end_depth_of :: "'s ctx \<Rightarrow> graph \<Rightarrow> int \<Rightarrow> int \<Rightarrow> error + real" where
  "start_end_depth_of c g start end =
     (case segments g \<bar>start\<bar> of
        None \<Rightarrow> Inl KeyError
      | Some start_seg \<Rightarrow>
          (case segments g \<bar>end\<bar> of
             None \<Rightarrow> Inl KeyError
           | Some end_seg \<Rightarrow>
               Inr (weighted_average c (depth start_seg) (depth end_seg)
                      (get_length_no_overlap start_seg (overlap g))
                      (get_length_no_overlap end_seg (overlap g)))))"

subsection \<open>\<^verbatim>\<open>reverse_path\<close> and \<^verbatim>\<open>build_path_dictionary\<close>\<close>

definition reverse_path :: "path \<Rightarrow> path" where
  "reverse_path p = map uminus (rev p)"

text \<open>The dictionary maps the first segment of each reversed path to the reversed paths
  that start with it, in the order of the list. \<^verbatim>\<open>r_path[0]\<close> of an empty path is an
  IndexError.\<close>

fun build_path_dictionary_from ::
  "(int \<rightharpoonup> path list) \<Rightarrow> path list \<Rightarrow> error + (int \<rightharpoonup> path list)" where
  "build_path_dictionary_from path_dict [] = Inr path_dict"
| "build_path_dictionary_from path_dict (p # path_list) =
     (case reverse_path p of
        [] \<Rightarrow> Inl IndexError
      | k # r \<Rightarrow>
          build_path_dictionary_from
            (path_dict(k \<mapsto> (case path_dict k of None \<Rightarrow> [] | Some l \<Rightarrow> l) @ [k # r]))
            path_list)"

definition build_path_dictionary :: "path list \<Rightarrow> error + (int \<rightharpoonup> path list)" where
  "build_path_dictionary path_list = build_path_dictionary_from Map.empty path_list"

subsection \<open>\<^verbatim>\<open>cull_paths\<close>\<close>

text \<open>The common start of all paths: position by position up to the smallest segment
  count, stopping at the first position where some path differs from the first path.\<close>

definition common_start_of :: "path list \<Rightarrow> path" where
  "common_start_of paths =
     map (\<lambda>i. hd paths ! i)
       (takeWhile (\<lambda>i. list_all (\<lambda>p. p ! i = hd paths ! i) paths)
          [0 ..< min_list (map length paths)])"

text \<open>The scoring loop: each path loses its first segment, the part of its sequence
  after the common start and before the shortest length is aligned, and a path whose
  alignment gives nothing is left out.\<close>

fun score_for_cull ::
  "'s ctx \<Rightarrow> graph \<Rightarrow> string \<Rightarrow> 's \<Rightarrow> nat \<Rightarrow> int \<Rightarrow> path list \<Rightarrow> (path \<times> real) list" where
  "score_for_cull c g seq_after scheme path_align_start shortest_len [] = []"
| "score_for_cull c g seq_after scheme path_align_start shortest_len (p # paths) =
     (let path = tl p;
          path_seq_after_common_path =
            py_slice (get_path_sequence g path) (int path_align_start) shortest_len
      in case path_alignment c path_seq_after_common_path seq_after scheme True 500 of
           None \<Rightarrow> score_for_cull c g seq_after scheme path_align_start shortest_len paths
         | Some a \<Rightarrow>
             (path, scaled_score a)
               # score_for_cull c g seq_after scheme path_align_start shortest_len paths)"

text \<open>The threshold loop: keep the paths whose score is at least the best score times the
  threshold, and while more than half of the working path limit survive, halve the
  distance of the threshold to 1.\<close>

partial_function (option) cull_threshold_loop ::
  "int \<Rightarrow> (path \<times> real) list \<Rightarrow> real \<Rightarrow> real \<Rightarrow> (path \<times> real) list option" where
  "cull_threshold_loop max_working scored_paths best_score score_fraction_threshold =
     (let surviving_paths =
            filter (\<lambda>scored_path. best_score * score_fraction_threshold \<le> snd scored_path)
              scored_paths
      in if max_working div 2 < int (length surviving_paths)
         then cull_threshold_loop max_working scored_paths best_score
                (1 - (1 - score_fraction_threshold) / 2)
         else Some surviving_paths)"

declare cull_threshold_loop.simps [code]

text \<open>The first part of \<^verbatim>\<open>cull_paths\<close>, up to the sorted list \<^verbatim>\<open>scored_paths\<close>. The
  minimum over an empty list of paths is a ValueError; an empty result of the alignment
  of the common start is an IndexError when its field 5 is read.\<close>

definition scored_paths_for_cull ::
  "'s ctx \<Rightarrow> graph \<Rightarrow> path list \<Rightarrow> string \<Rightarrow> 's \<Rightarrow> error + (path \<times> real) list" where
  "scored_paths_for_cull c g paths sequence scheme =
     (if paths = [] then Inl ValueError
      else
        let common_start = tl (common_start_of paths);
            common_path_seq = py_slice_to (get_path_sequence g common_start) (- 100);
            path_align_start = length common_path_seq
        in case (if common_path_seq \<noteq> []
                 then (case path_alignment c common_path_seq sequence scheme True 1000 of
                         None \<Rightarrow> Inl IndexError
                       | Some a \<Rightarrow> Inr (seq_end_pos a))
                 else Inr 0) of
             Inl e \<Rightarrow> Inl e
           | Inr seq_align_start \<Rightarrow>
               let shortest_len = min_list (map (get_path_length g) paths);
                   seq_after_common_path = py_slice_from sequence seq_align_start
               in Inr (sort_key (\<lambda>x. - snd x)
                         (score_for_cull c g seq_after_common_path scheme path_align_start
                            shortest_len paths)))"

definition cull_paths ::
  "'s ctx \<Rightarrow> graph \<Rightarrow> path list \<Rightarrow> string \<Rightarrow> 's \<Rightarrow> real \<Rightarrow> (error + path list) option" where
  "cull_paths c g paths sequence scheme expected_scaled_score =
     (let path_count_before_cull = length paths
      in case scored_paths_for_cull c g paths sequence scheme of
           Inl e \<Rightarrow> Some (Inl e)
         | Inr scored_paths \<Rightarrow>
             if scored_paths = [] then Some (Inr [])
             else
               let best_score = snd (hd scored_paths)
               in if best_score < 0.9 * expected_scaled_score then Some (Inr [])
                  else
                    (case cull_threshold_loop (PROGRESSIVE_PATH_SEARCH_MAX_WORKING_PATHS c)
                            scored_paths best_score
                            (PROGRESSIVE_PATH_SEARCH_SCORE_FRACTION c) of
                       None \<Rightarrow> None
                     | Some surviving_paths \<Rightarrow>
                         let paths' = map fst surviving_paths
                         in if length paths' = path_count_before_cull
                            then Some (Inr (take (length paths' div 2) paths'))
                            else Some (Inr paths')))"

subsection \<open>\<^verbatim>\<open>advance_paths\<close>\<close>

text \<open>The set of final paths is kept as a list without duplicates, in the order of
  insertion; the order in which Python iterates over a set is not specified.\<close>

definition add_final :: "path list \<Rightarrow> path \<Rightarrow> path list" where
  "add_final final_paths p = (if p \<in> set final_paths then final_paths else final_paths @ [p])"

fun add_final_parts :: "path \<Rightarrow> bool \<Rightarrow> path list \<Rightarrow> path list \<Rightarrow> path list" where
  "add_final_parts p flip_new_final_paths [] final_paths = final_paths"
| "add_final_parts p flip_new_final_paths (final_part # parts) final_paths =
     add_final_parts p flip_new_final_paths parts
       (add_final final_paths
          (if flip_new_final_paths then reverse_path (p @ final_part) else p @ final_part))"

text \<open>The loop over the downstream segments of one shortest path; the state is the pair
  of the new working paths and the final paths.\<close>

fun extend_path ::
  "graph \<Rightarrow> real \<Rightarrow> int \<Rightarrow> (int \<rightharpoonup> path list) \<Rightarrow> bool \<Rightarrow> path \<Rightarrow> int list
     \<Rightarrow> path list \<times> path list \<Rightarrow> path list \<times> path list" where
  "extend_path g start_end_depth max_length opposite_paths_dict flip p [] acc = acc"
| "extend_path g start_end_depth max_length opposite_paths_dict flip p (next_seg # rest)
       (new_working_paths, final_paths) =
     (if count_so_far p next_seg < max_path_segment_count g next_seg start_end_depth
      then
        extend_path g start_end_depth max_length opposite_paths_dict flip p rest
          (if get_path_length g (tl p @ [next_seg]) \<le> max_length
           then new_working_paths @ [p @ [next_seg]] else new_working_paths,
           case opposite_paths_dict next_seg of
             None \<Rightarrow> final_paths
           | Some parts \<Rightarrow> add_final_parts p flip parts final_paths)
      else
        extend_path g start_end_depth max_length opposite_paths_dict flip p rest
          (new_working_paths, final_paths))"

text \<open>The body of the loop over the working paths: a path longer than the shortest is
  kept as it is, a shortest path is replaced by its extensions. \<^verbatim>\<open>path[-1]\<close> of an empty
  path is an IndexError.\<close>

definition advance_path ::
  "graph \<Rightarrow> real \<Rightarrow> int \<Rightarrow> (int \<rightharpoonup> path list) \<Rightarrow> bool \<Rightarrow> int \<Rightarrow> path
     \<Rightarrow> path list \<times> path list \<Rightarrow> error + path list \<times> path list" where
  "advance_path g start_end_depth max_length opposite_paths_dict flip shortest_path_len p acc =
     (if shortest_path_len < get_path_length g p then Inr (fst acc @ [p], snd acc)
      else if p = [] then Inl IndexError
      else
        (case forward_links g (last p) of
           None \<Rightarrow> Inr acc
         | Some downstream_segments \<Rightarrow>
             Inr (extend_path g start_end_depth max_length opposite_paths_dict flip p
                    downstream_segments acc)))"

fun advance_round ::
  "graph \<Rightarrow> real \<Rightarrow> int \<Rightarrow> (int \<rightharpoonup> path list) \<Rightarrow> bool \<Rightarrow> int \<Rightarrow> path list
     \<Rightarrow> path list \<times> path list \<Rightarrow> error + path list \<times> path list" where
  "advance_round g start_end_depth max_length opposite_paths_dict flip shortest_path_len []
       acc = Inr acc"
| "advance_round g start_end_depth max_length opposite_paths_dict flip shortest_path_len
       (p # working_paths) acc =
     (case advance_path g start_end_depth max_length opposite_paths_dict flip
             shortest_path_len p acc of
        Inl e \<Rightarrow> Inl e
      | Inr acc' \<Rightarrow>
          advance_round g start_end_depth max_length opposite_paths_dict flip
            shortest_path_len working_paths acc')"

partial_function (option) advance_loop ::
  "int \<Rightarrow> graph \<Rightarrow> real \<Rightarrow> int \<Rightarrow> (int \<rightharpoonup> path list) \<Rightarrow> bool \<Rightarrow> path list \<Rightarrow> path list
     \<Rightarrow> (error + path list \<times> path list) option" where
  "advance_loop max_working g start_end_depth max_length opposite_paths_dict flip
       working_paths final_paths =
     (if \<not> (0 < length working_paths \<and> int (length working_paths) \<le> max_working)
      then Some (Inr (working_paths, final_paths))
      else
        (case advance_round g start_end_depth max_length opposite_paths_dict flip
                (min_list (map (get_path_length g) working_paths)) working_paths
                ([], final_paths) of
           Inl e \<Rightarrow> Some (Inl e)
         | Inr (new_working_paths, final_paths') \<Rightarrow>
             advance_loop max_working g start_end_depth max_length opposite_paths_dict flip
               new_working_paths final_paths'))"

declare advance_loop.simps [code]

text \<open>\<^verbatim>\<open>advance_paths\<close> returns the working paths; the final paths, which the source
  updates in place, are returned with them.\<close>

definition advance_paths ::
  "'s ctx \<Rightarrow> path list \<Rightarrow> (int \<rightharpoonup> path list) \<Rightarrow> int \<Rightarrow> path list \<Rightarrow> bool \<Rightarrow> string \<Rightarrow> 's
     \<Rightarrow> real \<Rightarrow> graph \<Rightarrow> real \<Rightarrow> int \<Rightarrow> (error + path list \<times> path list) option" where
  "advance_paths c working_paths opposite_paths_dict shortest_opposite_path final_paths
       flip_new_final_paths sequence scheme expected_scaled_score g start_end_depth
       total_max_length =
     (let max_length = total_max_length - shortest_opposite_path
      in case advance_loop (PROGRESSIVE_PATH_SEARCH_MAX_WORKING_PATHS c) g start_end_depth
                max_length opposite_paths_dict flip_new_final_paths working_paths
                final_paths of
           None \<Rightarrow> None
         | Some (Inl e) \<Rightarrow> Some (Inl e)
         | Some (Inr (working_paths', final_paths')) \<Rightarrow>
             if PROGRESSIVE_PATH_SEARCH_MAX_WORKING_PATHS c < int (length working_paths')
             then
               (case cull_paths c g working_paths' sequence scheme expected_scaled_score of
                  None \<Rightarrow> None
                | Some (Inl e) \<Rightarrow> Some (Inl e)
                | Some (Inr culled) \<Rightarrow> Some (Inr (culled, final_paths')))
             else Some (Inr (working_paths', final_paths')))"

subsection \<open>\<^verbatim>\<open>progressive_path_find\<close>\<close>

text \<open>One iteration of the loop advances the forward paths against the dictionary of the
  reverse paths and then the reverse paths against the dictionary of the forward paths;
  the loop ends when one of the two lists is empty.\<close>

partial_function (option) progressive_loop ::
  "'s ctx \<Rightarrow> graph \<Rightarrow> string \<Rightarrow> string \<Rightarrow> 's \<Rightarrow> real \<Rightarrow> real \<Rightarrow> int \<Rightarrow> path list \<Rightarrow> path list
     \<Rightarrow> path list \<Rightarrow> (error + path list) option" where
  "progressive_loop c g sequence reverse_sequence scheme expected_scaled_score
       start_end_depth max_length forward_working_paths reverse_working_paths final_paths =
     (case py_min (map (\<lambda>x. get_path_length g (tl x)) reverse_working_paths) of
        Inl e \<Rightarrow> Some (Inl e)
      | Inr shortest_reverse_path \<Rightarrow>
     (case build_path_dictionary reverse_working_paths of
        Inl e \<Rightarrow> Some (Inl e)
      | Inr reverse_paths_dict \<Rightarrow>
     (case advance_paths c forward_working_paths reverse_paths_dict shortest_reverse_path
             final_paths False sequence scheme expected_scaled_score g start_end_depth
             max_length of
        None \<Rightarrow> None
      | Some (Inl e) \<Rightarrow> Some (Inl e)
      | Some (Inr (forward_working_paths', final_paths')) \<Rightarrow>
     if forward_working_paths' = [] then Some (Inr final_paths')
     else
     (case py_min (map (\<lambda>x. get_path_length g (tl x)) forward_working_paths') of
        Inl e \<Rightarrow> Some (Inl e)
      | Inr shortest_forward_path \<Rightarrow>
     (case build_path_dictionary forward_working_paths' of
        Inl e \<Rightarrow> Some (Inl e)
      | Inr forward_paths_dict \<Rightarrow>
     (case advance_paths c reverse_working_paths forward_paths_dict shortest_forward_path
             final_paths' True reverse_sequence scheme expected_scaled_score g
             start_end_depth max_length of
        None \<Rightarrow> None
      | Some (Inl e) \<Rightarrow> Some (Inl e)
      | Some (Inr (reverse_working_paths', final_paths'')) \<Rightarrow>
     if reverse_working_paths' = [] then Some (Inr final_paths'')
     else progressive_loop c g sequence reverse_sequence scheme expected_scaled_score
            start_end_depth max_length forward_working_paths' reverse_working_paths'
            final_paths''))))))"

declare progressive_loop.simps [code]

definition progressive_path_find ::
  "'s ctx \<Rightarrow> graph \<Rightarrow> int \<Rightarrow> int \<Rightarrow> int \<Rightarrow> int \<Rightarrow> string \<Rightarrow> 's \<Rightarrow> real
     \<Rightarrow> (error + path list) option" where
  "progressive_path_find c g start end min_length max_length sequence scheme
       expected_scaled_score =
     (let reverse_sequence = reverse_complement c sequence
      in case start_end_depth_of c g start end of
           Inl e \<Rightarrow> Some (Inl e)
         | Inr start_end_depth \<Rightarrow>
             (case progressive_loop c g sequence reverse_sequence scheme
                     expected_scaled_score start_end_depth max_length [[start]] [[- end]] [] of
                None \<Rightarrow> None
              | Some (Inl e) \<Rightarrow> Some (Inl e)
              | Some (Inr final_paths) \<Rightarrow>
                  Some (Inr (filter
                    (\<lambda>x. min_length \<le> get_path_length g x \<and> get_path_length g x \<le> max_length)
                    (map (\<lambda>x. butlast (tl x)) final_paths)))))"

subsection \<open>\<^verbatim>\<open>all_paths\<close>\<close>

text \<open>The loop over the downstream segments of a working path that is extended.\<close>

definition extend_working_path :: "graph \<Rightarrow> real \<Rightarrow> path \<Rightarrow> int list \<Rightarrow> path list" where
  "extend_working_path g start_end_depth working_path downstream =
     map (\<lambda>next_seg. working_path @ [next_seg])
       (filter (\<lambda>next_seg. count_so_far working_path next_seg
                              < max_path_segment_count g next_seg start_end_depth)
          downstream)"

text \<open>The body of the loop over the working paths; the state is the pair of the new
  working paths and the final paths. Every working path is non-empty.\<close>

definition visit_working_path ::
  "int \<Rightarrow> graph \<Rightarrow> int \<Rightarrow> int \<Rightarrow> int \<Rightarrow> real \<Rightarrow> path \<Rightarrow> path list \<times> path list
     \<Rightarrow> error + path list \<times> path list" where
  "visit_working_path max_final g end min_length max_length start_end_depth working_path acc =
     (let last_seg = last working_path
      in if last_seg = end
         then
           (let potential_result = butlast working_path
            in if min_length \<le> get_path_length g potential_result
               then
                 (if max_final < int (length (snd acc @ [potential_result]))
                  then Inl TooManyPaths
                  else Inr (fst acc, snd acc @ [potential_result]))
               else Inr acc)
         else
           (case (if get_path_length g working_path \<le> max_length
                  then forward_links g last_seg else None) of
              Some downstream \<Rightarrow>
                Inr (fst acc @ extend_working_path g start_end_depth working_path downstream,
                     snd acc)
            | None \<Rightarrow> Inr acc))"

fun all_paths_round ::
  "int \<Rightarrow> graph \<Rightarrow> int \<Rightarrow> int \<Rightarrow> int \<Rightarrow> real \<Rightarrow> path list \<Rightarrow> path list \<times> path list
     \<Rightarrow> error + path list \<times> path list" where
  "all_paths_round max_final g end min_length max_length start_end_depth [] acc = Inr acc"
| "all_paths_round max_final g end min_length max_length start_end_depth
       (working_path # working_paths) acc =
     (case visit_working_path max_final g end min_length max_length start_end_depth
             working_path acc of
        Inl e \<Rightarrow> Inl e
      | Inr acc' \<Rightarrow>
          all_paths_round max_final g end min_length max_length start_end_depth
            working_paths acc')"

partial_function (option) all_paths_loop ::
  "'s ctx \<Rightarrow> graph \<Rightarrow> int \<Rightarrow> int \<Rightarrow> int \<Rightarrow> real \<Rightarrow> path list \<Rightarrow> path list
     \<Rightarrow> (error + path list) option" where
  "all_paths_loop c g end min_length max_length start_end_depth working_paths final_paths =
     (if working_paths = [] then Some (Inr final_paths)
      else
        (case all_paths_round (ALL_PATH_SEARCH_MAX_FINAL_PATHS c) g end min_length
                max_length start_end_depth working_paths ([], final_paths) of
           Inl e \<Rightarrow> Some (Inl e)
         | Inr (new_working_paths, final_paths') \<Rightarrow>
             if ALL_PATH_SEARCH_MAX_WORKING_PATHS c < int (length working_paths)
             then Some (Inl TooManyPaths)
             else all_paths_loop c g end min_length max_length start_end_depth
                    new_working_paths final_paths'))"

declare all_paths_loop.simps [code]

definition all_paths ::
  "'s ctx \<Rightarrow> graph \<Rightarrow> int \<Rightarrow> int \<Rightarrow> int \<Rightarrow> int \<Rightarrow> int \<Rightarrow> (error + path list) option" where
  "all_paths c g start end min_length target_length max_length =
     (case forward_links g start of
        None \<Rightarrow> Some (Inr [])
      | Some downstream \<Rightarrow>
          (case start_end_depth_of c g start end of
             Inl e \<Rightarrow> Some (Inl e)
           | Inr start_end_depth \<Rightarrow>
               all_paths_loop c g end min_length max_length start_end_depth
                 (map (\<lambda>x. [x]) downstream) []))"

subsection \<open>\<^verbatim>\<open>get_best_paths_for_seq\<close>\<close>

text \<open>The search: all paths, or the progressive search when there are too many.\<close>

definition search_paths ::
  "'s ctx \<Rightarrow> graph \<Rightarrow> int \<Rightarrow> int \<Rightarrow> int \<Rightarrow> int \<Rightarrow> int \<Rightarrow> string \<Rightarrow> 's \<Rightarrow> real
     \<Rightarrow> (error + path list \<times> bool) option" where
  "search_paths c g start_seg end_seg min_length target_length max_length sequence scheme
       expected_scaled_score =
     (case all_paths c g start_seg end_seg min_length target_length max_length of
        None \<Rightarrow> None
      | Some (Inr paths) \<Rightarrow> Some (Inr (paths, False))
      | Some (Inl TooManyPaths) \<Rightarrow>
          (case progressive_path_find c g start_seg end_seg min_length max_length sequence
                  scheme expected_scaled_score of
             None \<Rightarrow> None
           | Some (Inl e) \<Rightarrow> Some (Inl e)
           | Some (Inr paths) \<Rightarrow> Some (Inr (paths, True)))
      | Some (Inl e) \<Rightarrow> Some (Inl e))"

text \<open>The scoring loop: with a consensus sequence a path is aligned to it and is left out
  when the alignment gives nothing; without one its raw score is the agreement of its
  length with the target length times 100 and its scaled score is 100.\<close>

fun score_paths :: "'s ctx \<Rightarrow> graph \<Rightarrow> int \<Rightarrow> string \<Rightarrow> 's \<Rightarrow> path list \<Rightarrow> candidate list" where
  "score_paths c g target_length sequence scheme [] = []"
| "score_paths c g target_length sequence scheme (p # paths) =
     (let path_len = get_path_length g p;
          length_discrepancy = \<bar>path_len - target_length\<bar>
      in if sequence \<noteq> []
         then
           (case fully_global_alignment c sequence (get_path_sequence g p) scheme True 1000 of
              None \<Rightarrow> score_paths c g target_length sequence scheme paths
            | Some a \<Rightarrow>
                (p, real_of_int (raw_score a), length_discrepancy, scaled_score a)
                  # score_paths c g target_length sequence scheme paths)
         else
           (p, fmul c (get_num_agreement c path_len target_length) 100, length_discrepancy,
            100)
             # score_paths c g target_length sequence scheme paths)"

text \<open>The list \<^verbatim>\<open>paths_and_scores\<close> as it is before the final sort, with the flag of the
  progressive search.\<close>

definition scored_candidates ::
  "'s ctx \<Rightarrow> graph \<Rightarrow> int \<Rightarrow> int \<Rightarrow> int \<Rightarrow> string \<Rightarrow> 's \<Rightarrow> real
     \<Rightarrow> (error + candidate list \<times> bool) option" where
  "scored_candidates c g start_seg end_seg target_length sequence scheme
       expected_scaled_score =
     (let min_length = py_round (real_of_int target_length * MIN_RELATIVE_PATH_LENGTH c);
          max_length = py_round (real_of_int target_length * MAX_RELATIVE_PATH_LENGTH c);
          sequence' =
            (if sequence \<noteq> []
             then py_slice_from (seq_from_signed_seg_num g start_seg) (- overlap g) @ sequence
                    @ py_slice_to (seq_from_signed_seg_num g end_seg) (overlap g)
             else sequence)
      in case search_paths c g start_seg end_seg min_length target_length max_length
                sequence' scheme expected_scaled_score of
           None \<Rightarrow> None
         | Some (Inl e) \<Rightarrow> Some (Inl e)
         | Some (Inr (paths, progressive_path_search)) \<Rightarrow>
             Some (Inr (score_paths c g target_length sequence' scheme
                          (sort_key (\<lambda>x. \<bar>target_length - get_path_length g x\<bar>) paths),
                        progressive_path_search)))"

text \<open>The key of the final sort: raw score descending, length discrepancy ascending,
  scaled score descending, compared as a tuple.\<close>

definition rank_key :: "candidate \<Rightarrow> real \<times> int \<times> real" where
  "rank_key x = (- cand_raw x, cand_discrepancy x, - cand_scaled x)"

text \<open>The final sort and the filter on the scaled score.\<close>

definition final_ranking :: "'s ctx \<Rightarrow> candidate list \<Rightarrow> candidate list" where
  "final_ranking c cands =
     (let paths_and_scores = sort_key rank_key cands
      in if paths_and_scores \<noteq> []
         then
           (let best_scaled_score = cand_scaled (hd paths_and_scores);
                min_scaled_score = fmul c best_scaled_score 0.95
            in filter (\<lambda>x. min_scaled_score \<le> cand_scaled x) paths_and_scores)
         else paths_and_scores)"

definition get_best_paths_for_seq ::
  "'s ctx \<Rightarrow> graph \<Rightarrow> int \<Rightarrow> int \<Rightarrow> int \<Rightarrow> string \<Rightarrow> 's \<Rightarrow> real
     \<Rightarrow> (error + candidate list \<times> bool) option" where
  "get_best_paths_for_seq c g start_seg end_seg target_length sequence scheme
       expected_scaled_score =
     (case scored_candidates c g start_seg end_seg target_length sequence scheme
             expected_scaled_score of
        None \<Rightarrow> None
      | Some (Inl e) \<Rightarrow> Some (Inl e)
      | Some (Inr (paths_and_scores, progressive_path_search)) \<Rightarrow>
          Some (Inr (final_ranking c paths_and_scores, progressive_path_search)))"

subsection \<open>Notions used to state the properties\<close>

text \<open>\<open>linked g a b\<close>: the adjacency list of \<open>a\<close> exists and contains \<open>b\<close>.\<close>

definition linked :: "graph \<Rightarrow> int \<Rightarrow> int \<Rightarrow> bool" where
  "linked g a b = (case forward_links g a of None \<Rightarrow> False | Some ds \<Rightarrow> b \<in> set ds)"

text \<open>The number of occurrences of a segment in a path, a reference and its negation
  counted together.\<close>

definition occurrences :: "path \<Rightarrow> int \<Rightarrow> nat" where
  "occurrences p s = length (filter (\<lambda>x. x = s \<or> x = - s) p)"


text \<open>The working paths that the progressive search can hold for the anchor \<open>a\<close>: the
  path of the anchor alone, a path extended by a downstream segment that passes the
  repetition test, and a path without its first segment (as \<^verbatim>\<open>cull_paths\<close> returns it).\<close>

inductive grown :: "graph \<Rightarrow> real \<Rightarrow> int \<Rightarrow> path \<Rightarrow> bool" for g d a where
  anchor: "grown g d a [a]"
| extend: "grown g d a W \<Longrightarrow> W \<noteq> [] \<Longrightarrow> forward_links g (last W) = Some ds \<Longrightarrow> n \<in> set ds
             \<Longrightarrow> count_so_far W n < max_path_segment_count g n d \<Longrightarrow> grown g d a (W @ [n])"
| strip: "grown g d a W \<Longrightarrow> grown g d a (tl W)"

text \<open>A final path of the progressive search, as it is before the first and the last
  element are removed: a forward working path followed by a reversed reverse working path,
  where one of the two ends with a segment that leads to the segment after it.\<close>

definition joined :: "graph \<Rightarrow> real \<Rightarrow> int \<Rightarrow> int \<Rightarrow> path \<Rightarrow> bool" where
  "joined g d s e x \<longleftrightarrow>
     (\<exists>W V. grown g d s W \<and> grown g d (- e) V \<and> W \<noteq> [] \<and> V \<noteq> []
        \<and> (linked g (last W) (- last V) \<or> linked g (last V) (- last W))
        \<and> x = W @ reverse_path V)"

text \<open>A dictionary of the working paths of the anchor \<open>b\<close>, as
  \<^verbatim>\<open>build_path_dictionary\<close> makes it.\<close>

definition dict_of :: "graph \<Rightarrow> real \<Rightarrow> int \<Rightarrow> (int \<rightharpoonup> path list) \<Rightarrow> bool" where
  "dict_of g d b dict \<longleftrightarrow>
     (\<forall>n parts part. dict n = Some parts \<longrightarrow> part \<in> set parts \<longrightarrow>
        (\<exists>V. grown g d b V \<and> V \<noteq> [] \<and> part = reverse_path V \<and> n = - last V))"

subsection \<open>Concrete graphs and settings\<close>

text \<open>A float product for the concrete settings: the exact product. On the operands of
  the examples below (50 or 100 times 0.95, 1 times 100) the interpreter gives the same
  numbers: 47.5, 95 and 100.\<close>

lift_definition exact_product :: float_product is "\<lambda>x y. x * y"
  by (simp add: mult_left_le)

definition ex_segment :: segment where
  "ex_segment = \<lparr>depth = 1, get_length_no_overlap = (\<lambda>ov. 10)\<rparr>"

definition ex_segments :: "int \<rightharpoonup> segment" where
  "ex_segments = map_of [(1, ex_segment), (2, ex_segment), (3, ex_segment), (4, ex_segment)]"

text \<open>Two paths from 1 to 4, through 2 or through 3; every segment has length 10 and may
  be used once.\<close>

definition fork_graph :: graph where
  "fork_graph =
     \<lparr>forward_links = map_of [(1, [2, 3]), (2, [4]), (3, [4])],
      segments = ex_segments,
      overlap = 0,
      get_path_length = (\<lambda>p. 10 * int (length p)),
      get_path_sequence = concat \<circ> map (\<lambda>s. if s = 2 then ''AC'' else ''GT''),
      seq_from_signed_seg_num = (\<lambda>s. []),
      max_path_segment_count = (\<lambda>s d. 1)\<rparr>"

text \<open>The global alignment gives the path through 2 the raw score 100 and the scaled
  score 50, and the path through 3 the raw score 90 and the scaled score 100.\<close>

definition fork_ctx :: "unit ctx" where
  "fork_ctx =
     \<lparr>MIN_RELATIVE_PATH_LENGTH = 0.8, MAX_RELATIVE_PATH_LENGTH = 1.3,
      ALL_PATH_SEARCH_MAX_FINAL_PATHS = 100, ALL_PATH_SEARCH_MAX_WORKING_PATHS = 100,
      PROGRESSIVE_PATH_SEARCH_MAX_WORKING_PATHS = 100,
      PROGRESSIVE_PATH_SEARCH_SCORE_FRACTION = 0.99,
      weighted_average = (\<lambda>a b la lb. (a + b) / 2),
      reverse_complement = rev,
      get_num_agreement = (\<lambda>a b. 1),
      fully_global_alignment = (\<lambda>s p sch b w. if p = ''AC''
         then Some \<lparr>seq_end_pos = 0, raw_score = 100, scaled_score = 50\<rparr>
         else Some \<lparr>seq_end_pos = 0, raw_score = 90, scaled_score = 100\<rparr>),
      path_alignment = (\<lambda>s p sch b w. None),
      float_times = exact_product\<rparr>"

text \<open>A cycle through the start anchor: 1 leads to 2 and 3, and 2 leads back to 1.\<close>

definition cycle_graph :: graph where
  "cycle_graph = fork_graph\<lparr>forward_links := map_of [(1, [2, 3]), (2, [1])]\<rparr>"


text \<open>A graph with both strands and a loop: 1, 2, 5, then either 8 and the end anchor 9,
  or 6, 4 and back to 5; segments 3 and 7 are dead ends. Every segment may be used once.
  The sequences make the alignment prefer a path that ends in segment 6 or 4.\<close>

definition loop_segments :: "int \<rightharpoonup> segment" where
  "loop_segments = map_of [(1, ex_segment), (9, ex_segment)]"

definition loop_graph :: graph where
  "loop_graph =
     \<lparr>forward_links = map_of
        [(1, [2]), (2, [5]), (5, [6, 8, 7]), (6, [4]), (4, [5]), (3, [5]), (8, [9]),
         (- 2, [- 1]), (- 5, [- 4, - 2, - 3]), (- 6, [- 5]), (- 8, [- 5]), (- 7, [- 5]),
         (- 4, [- 6]), (- 9, [- 8])],
      segments = loop_segments,
      overlap = 0,
      get_path_length = (\<lambda>p. 10 * int (length p)),
      get_path_sequence =
        concat \<circ> map (\<lambda>s. if \<bar>s\<bar> = 6 then ''G'' else if \<bar>s\<bar> = 4 then ''T'' else ''A''),
      seq_from_signed_seg_num = (\<lambda>s. []),
      max_path_segment_count = (\<lambda>s d. 1)\<rparr>"

text \<open>Settings with a limit of two working paths for both searches.\<close>

definition loop_ctx :: "unit ctx" where
  "loop_ctx =
     \<lparr>MIN_RELATIVE_PATH_LENGTH = 0.8, MAX_RELATIVE_PATH_LENGTH = 1.3,
      ALL_PATH_SEARCH_MAX_FINAL_PATHS = 2, ALL_PATH_SEARCH_MAX_WORKING_PATHS = 2,
      PROGRESSIVE_PATH_SEARCH_MAX_WORKING_PATHS = 2,
      PROGRESSIVE_PATH_SEARCH_SCORE_FRACTION = 0.99,
      weighted_average = (\<lambda>a b la lb. (a + b) / 2),
      reverse_complement = rev,
      get_num_agreement = (\<lambda>a b. 1),
      fully_global_alignment = (\<lambda>s p sch b w.
         Some \<lparr>seq_end_pos = 0, raw_score = 100, scaled_score = 100\<rparr>),
      path_alignment = (\<lambda>p s sch b w.
         if p \<noteq> [] \<and> (last p = CHR ''G'' \<or> last p = CHR ''T'')
         then Some \<lparr>seq_end_pos = 0, raw_score = 0, scaled_score = 100\<rparr>
         else Some \<lparr>seq_end_pos = 0, raw_score = 0, scaled_score = 50\<rparr>),
      float_times = exact_product\<rparr>"

text \<open>The same settings with an alignment that gives every path the same score.\<close>

definition tie_ctx :: "unit ctx" where
  "tie_ctx = loop_ctx\<lparr>path_alignment := (\<lambda>p s sch b w.
         Some \<lparr>seq_end_pos = 0, raw_score = 0, scaled_score = 100\<rparr>)\<rparr>"

text \<open>The same settings with limits that let \<^verbatim>\<open>all_paths\<close> finish.\<close>

definition wide_ctx :: "unit ctx" where
  "wide_ctx = loop_ctx\<lparr>ALL_PATH_SEARCH_MAX_FINAL_PATHS := 100,
                        ALL_PATH_SEARCH_MAX_WORKING_PATHS := 100\<rparr>"

section \<open>The final ranking of \<^verbatim>\<open>get_best_paths_for_seq\<close>\<close>

lemma rank_key_le:
  "rank_key x \<le> rank_key y \<longleftrightarrow>
     cand_raw y < cand_raw x \<or>
     (cand_raw x = cand_raw y \<and>
       (cand_discrepancy x < cand_discrepancy y \<or>
        (cand_discrepancy x = cand_discrepancy y \<and> cand_scaled y \<le> cand_scaled x)))"
  by (auto simp: rank_key_def less_eq_prod_def)

lemma sorted_map_hd_le:
  "sorted (map f xs) \<Longrightarrow> x \<in> set xs \<Longrightarrow> f (hd xs) \<le> f x"
  by (cases xs) auto

lemma fmul_le: "0 \<le> x \<Longrightarrow> fmul c x 0.95 \<le> x"
  using Rep_float_product[of "float_times c"] by (simp add: fmul_def)


lemma final_ranking_sorted: "sorted (map rank_key (final_ranking c cands))"
  by (simp add: final_ranking_def Let_def sorted_filter)


lemma get_best_paths_for_seq_Some:
  "get_best_paths_for_seq c g s e t sq sch ex = Some (Inr (result, flag)) \<longleftrightarrow>
     (\<exists>scored. scored_candidates c g s e t sq sch ex = Some (Inr (scored, flag))
        \<and> result = final_ranking c scored)"
  by (auto simp: get_best_paths_for_seq_def split: option.splits sum.splits)


lemma final_ranking_hd:
  assumes "cands \<noteq> []" "\<forall>x\<in>set cands. 0 \<le> cand_scaled x"
  shows "final_ranking c cands \<noteq> []
       \<and> hd (final_ranking c cands) = hd (sort_key rank_key cands)"
proof -
  let ?s = "sort_key rank_key cands"
  have ne: "?s \<noteq> []" using assms(1) by (metis length_0_conv length_sort)
  then obtain t ts where s: "?s = t # ts" by (cases ?s) auto
  have "t \<in> set cands" using s by (metis list.set_intros(1) set_sort)
  then have "0 \<le> cand_scaled t" using assms(2) by blast
  then have "fmul c (cand_scaled t) 0.95 \<le> cand_scaled t" by (rule fmul_le)
  then show ?thesis using s by (simp add: final_ranking_def Let_def)
qed






text \<open>
  Claim C6. In the list that \<^verbatim>\<open>get_best_paths_for_seq\<close> returns, a record at an earlier
  position has a higher raw score than a record at a later position, or the same raw
  score and a smaller length discrepancy, or the same raw score and length discrepancy and
  a scaled score that is at least as high. In particular, of two returned records with
  different raw scores the one with the higher raw score is at the earlier position.
\<close>

theorem final_ranking_order:
  assumes "get_best_paths_for_seq c g s e t sq sch ex = Some (Inr (result, flag))"
    and "i < length result" and "j < length result"
  shows "(i < j \<longrightarrow>
           cand_raw (result ! j) < cand_raw (result ! i) \<or>
           (cand_raw (result ! i) = cand_raw (result ! j) \<and>
             (cand_discrepancy (result ! i) < cand_discrepancy (result ! j) \<or>
              (cand_discrepancy (result ! i) = cand_discrepancy (result ! j) \<and>
               cand_scaled (result ! j) \<le> cand_scaled (result ! i)))))
       \<and> (cand_raw (result ! j) < cand_raw (result ! i) \<longrightarrow> i < j)"
proof -
  from assms(1) obtain scored where "result = final_ranking c scored"
    by (auto simp: get_best_paths_for_seq_Some)
  then have srt: "sorted (map rank_key result)" by (simp add: final_ranking_sorted)
  have le: "rank_key (result ! a) \<le> rank_key (result ! b)"
    if "a \<le> b" "b < length result" for a b
    using srt that sorted_iff_nth_mono[of "map rank_key result"] by auto
  have first: "cand_raw (result ! j) < cand_raw (result ! i) \<or>
           (cand_raw (result ! i) = cand_raw (result ! j) \<and>
             (cand_discrepancy (result ! i) < cand_discrepancy (result ! j) \<or>
              (cand_discrepancy (result ! i) = cand_discrepancy (result ! j) \<and>
               cand_scaled (result ! j) \<le> cand_scaled (result ! i))))" if "i < j"
    using le[of i j] that assms(3) by (simp add: rank_key_le)
  have second: "i < j" if "cand_raw (result ! j) < cand_raw (result ! i)"
  proof (rule ccontr)
    assume "\<not> i < j"
    then have "rank_key (result ! j) \<le> rank_key (result ! i)"
      using le[of j i] assms(2) by simp
    then show False using that by (auto simp: rank_key_le)
  qed
  show ?thesis using first second by blast
qed

theorem final_ranking_order_witness:
  "get_best_paths_for_seq fork_ctx fork_graph 1 4 10 ''ACGT'' () 90
     = Some (Inr ([([2], 100, 0, 50), ([3], 90, 0, 100)], False))
   \<and> cand_raw ([3], 90, 0, 100) < cand_raw ([2], 100, 0, 50)
   \<and> (0::nat) < 1"
proof -
  have h: "get_best_paths_for_seq fork_ctx fork_graph 1 4 10 ''ACGT'' () 90
     = Some (Inr ([([2], 100, 0, 50), ([3], 90, 0, 100)], False))"
    by code_simp
  have "cand_raw ([3], 90, 0, 100) < cand_raw ([2], 100, 0, 50)"
    by (simp add: cand_raw_def)
  with final_ranking_order[OF h, of 0 1] h show ?thesis by simp
qed

text \<open>
  Claim C10. If the scoring produces at least one record and no scaled score is
  negative, then \<^verbatim>\<open>get_best_paths_for_seq\<close> returns a non-empty list whose first element
  is a scored record of maximal raw score: the filter on the scaled score keeps the
  top-ranked record.
\<close>

theorem top_candidate_kept:
  assumes "scored_candidates c g s e t sq sch ex = Some (Inr (scored, flag))"
    and "scored \<noteq> []"
    and "\<forall>x\<in>set scored. 0 \<le> cand_scaled x"
  shows "\<exists>result. get_best_paths_for_seq c g s e t sq sch ex = Some (Inr (result, flag))
           \<and> result \<noteq> [] \<and> hd result \<in> set scored
           \<and> (\<forall>x\<in>set scored. cand_raw x \<le> cand_raw (hd result))"
proof -
  let ?r = "final_ranking c scored"
  let ?s = "sort_key rank_key scored"
  have r: "get_best_paths_for_seq c g s e t sq sch ex = Some (Inr (?r, flag))"
    using assms(1) by (simp add: get_best_paths_for_seq_Some)
  have hd: "?r \<noteq> [] \<and> hd ?r = hd ?s" using final_ranking_hd[OF assms(2,3)] .
  have ne: "?s \<noteq> []" using assms(2) by (metis length_0_conv length_sort)
  have mem: "hd ?s \<in> set scored" using ne by (metis hd_in_set set_sort)
  have "cand_raw x \<le> cand_raw (hd ?s)" if "x \<in> set scored" for x
  proof -
    have "x \<in> set ?s" using that by simp
    then have "rank_key (hd ?s) \<le> rank_key x"
      using sorted_map_hd_le[of rank_key ?s x] by simp
    then show ?thesis by (auto simp: rank_key_le)
  qed
  with r hd mem show ?thesis by auto
qed

theorem top_candidate_kept_witness:
  "\<exists>result. get_best_paths_for_seq fork_ctx fork_graph 1 4 10 ''ACGT'' () 90
               = Some (Inr (result, False))
     \<and> result \<noteq> [] \<and> hd result \<in> set [([2], 100, 0, 50), ([3], 90, 0, 100)]
     \<and> cand_raw ([2], 100, 0, 50) \<le> cand_raw (hd result)
     \<and> cand_raw ([3], 90, 0, 100) \<le> cand_raw (hd result)"
proof -
  have h: "scored_candidates fork_ctx fork_graph 1 4 10 ''ACGT'' () 90
     = Some (Inr ([([2], 100, 0, 50), ([3], 90, 0, 100)], False))"
    by code_simp
  have nn: "\<forall>x\<in>set [([2], 100, 0, 50), ([3], 90, 0, 100)]. 0 \<le> cand_scaled x"
    by (simp add: cand_scaled_def)
  from top_candidate_kept[OF h _ nn] show ?thesis by simp
qed




section \<open>The paths that \<^verbatim>\<open>all_paths\<close> returns\<close>

text \<open>An invariant \<open>P\<close> of the working paths that every extension keeps gives a property
  \<open>Q\<close> of every returned path.\<close>

lemma visit_working_path_invariant:
  assumes step: "\<And>W n ds. P W \<Longrightarrow> W \<noteq> [] \<Longrightarrow> last W \<noteq> e \<Longrightarrow> get_path_length g W \<le> maxl
            \<Longrightarrow> forward_links g (last W) = Some ds \<Longrightarrow> n \<in> set ds
            \<Longrightarrow> count_so_far W n < max_path_segment_count g n d \<Longrightarrow> P (W @ [n])"
    and fin: "\<And>W. P W \<Longrightarrow> W \<noteq> [] \<Longrightarrow> last W = e \<Longrightarrow> minl \<le> get_path_length g (butlast W)
            \<Longrightarrow> Q (butlast W)"
    and run: "visit_working_path mf g e minl maxl d W acc = Inr acc'"
    and W: "W \<noteq> [] \<and> P W"
    and acc: "\<forall>V\<in>set (fst acc). V \<noteq> [] \<and> P V" "\<forall>p\<in>set (snd acc). Q p"
  shows "(\<forall>V\<in>set (fst acc'). V \<noteq> [] \<and> P V) \<and> (\<forall>p\<in>set (snd acc'). Q p)"
proof (cases "last W = e")
  case True
  then show ?thesis
    using run W acc fin[of W]
    by (auto simp: visit_working_path_def Let_def split: if_splits)
next
  case False
  show ?thesis
  proof (cases "get_path_length g W \<le> maxl \<and> forward_links g (last W) \<noteq> None")
    case True
    then obtain ds where ds: "forward_links g (last W) = Some ds" by auto
    have acc': "acc' = (fst acc @ extend_working_path g d W ds, snd acc)"
      using run False True ds by (auto simp: visit_working_path_def Let_def)
    have "V \<noteq> [] \<and> P V" if "V \<in> set (extend_working_path g d W ds)" for V
    proof -
      from that obtain n where n: "n \<in> set ds"
        "count_so_far W n < max_path_segment_count g n d" "V = W @ [n]"
        by (auto simp: extend_working_path_def)
      have "P (W @ [n])" using step[OF _ _ False _ ds n(1,2)] W True by blast
      then show ?thesis using n(3) by simp
    qed
    then show ?thesis using acc acc' by auto
  next
    case nolink: False
    then have "acc' = acc"
      using run False by (auto simp: visit_working_path_def Let_def split: if_splits option.splits)
    then show ?thesis using acc by simp
  qed
qed

lemma all_paths_round_invariant:
  assumes step: "\<And>W n ds. P W \<Longrightarrow> W \<noteq> [] \<Longrightarrow> last W \<noteq> e \<Longrightarrow> get_path_length g W \<le> maxl
            \<Longrightarrow> forward_links g (last W) = Some ds \<Longrightarrow> n \<in> set ds
            \<Longrightarrow> count_so_far W n < max_path_segment_count g n d \<Longrightarrow> P (W @ [n])"
    and fin: "\<And>W. P W \<Longrightarrow> W \<noteq> [] \<Longrightarrow> last W = e \<Longrightarrow> minl \<le> get_path_length g (butlast W)
            \<Longrightarrow> Q (butlast W)"
  shows "all_paths_round mf g e minl maxl d ws acc = Inr acc'
     \<Longrightarrow> \<forall>W\<in>set ws. W \<noteq> [] \<and> P W
     \<Longrightarrow> \<forall>V\<in>set (fst acc). V \<noteq> [] \<and> P V \<Longrightarrow> \<forall>p\<in>set (snd acc). Q p
     \<Longrightarrow> (\<forall>V\<in>set (fst acc'). V \<noteq> [] \<and> P V) \<and> (\<forall>p\<in>set (snd acc'). Q p)"
proof (induction ws arbitrary: acc)
  case Nil
  then show ?case by simp
next
  case (Cons W ws)
  from Cons.prems(1) obtain acc1 where
    v: "visit_working_path mf g e minl maxl d W acc = Inr acc1" and
    r: "all_paths_round mf g e minl maxl d ws acc1 = Inr acc'"
    by (auto split: sum.splits)
  have inv1: "(\<forall>V\<in>set (fst acc1). V \<noteq> [] \<and> P V) \<and> (\<forall>p\<in>set (snd acc1). Q p)"
    by (rule visit_working_path_invariant[where P=P and Q=Q, OF step fin v])
       (use Cons.prems in simp_all)
  have rest: "\<forall>W\<in>set ws. W \<noteq> [] \<and> P W" using Cons.prems(2) by simp
  show ?case by (rule Cons.IH[OF r rest]) (use inv1 in blast)+
qed

lemma all_paths_loop_invariant:
  assumes step: "\<And>W n ds. P W \<Longrightarrow> W \<noteq> [] \<Longrightarrow> last W \<noteq> e \<Longrightarrow> get_path_length g W \<le> maxl
            \<Longrightarrow> forward_links g (last W) = Some ds \<Longrightarrow> n \<in> set ds
            \<Longrightarrow> count_so_far W n < max_path_segment_count g n d \<Longrightarrow> P (W @ [n])"
    and fin: "\<And>W. P W \<Longrightarrow> W \<noteq> [] \<Longrightarrow> last W = e \<Longrightarrow> minl \<le> get_path_length g (butlast W)
            \<Longrightarrow> Q (butlast W)"
    and run: "all_paths_loop c g e minl maxl d ws fp = Some (Inr paths)"
    and ws0: "\<forall>W\<in>set ws. W \<noteq> [] \<and> P W"
    and fp0: "\<forall>p\<in>set fp. Q p"
  shows "\<forall>p\<in>set paths. Q p"
proof -
  have "(c', g', e', minl', maxl', d') = (c, g, e, minl, maxl, d)
      \<longrightarrow> (\<forall>W\<in>set ws'. W \<noteq> [] \<and> P W) \<longrightarrow> (\<forall>p\<in>set fp'. Q p)
           \<longrightarrow> (\<forall>ps. r = Inr ps \<longrightarrow> (\<forall>p\<in>set ps. Q p))"
    if "all_paths_loop c' g' e' minl' maxl' d' ws' fp' = Some r"
    for c' g' e' minl' maxl' d' ws' fp' r
    using that
  proof (induction c' g' e' minl' maxl' d' ws' fp' r
      rule: all_paths_loop.raw_induct[rotated 1, consumes 1])
    case (1 loop c' g' e' minl' maxl' d' ws' fp' r)
    show ?case
    proof (intro impI allI)
      fix ps
      assume eq: "(c', g', e', minl', maxl', d') = (c, g, e, minl, maxl, d)"
        and ws: "\<forall>W\<in>set ws'. W \<noteq> [] \<and> P W" and fp: "\<forall>p\<in>set fp'. Q p"
        and r: "r = Inr ps"
      show "\<forall>p\<in>set ps. Q p"
      proof (cases "ws' = []")
        case True
        then show ?thesis using "1"(2) r fp by simp
      next
        case False
        then obtain nw fp'' where
          rd: "all_paths_round (ALL_PATH_SEARCH_MAX_FINAL_PATHS c) g e minl maxl d ws' ([], fp')
                 = Inr (nw, fp'')"
          and rec: "loop c g e minl maxl d nw fp'' = Some r"
          using "1"(2) r eq by (auto split: sum.splits if_splits)
        have "(\<forall>V\<in>set (fst (nw, fp'')). V \<noteq> [] \<and> P V)
               \<and> (\<forall>p\<in>set (snd (nw, fp'')). Q p)"
          by (rule all_paths_round_invariant[where P=P and Q=Q, OF step fin rd])
             (use ws fp in simp_all)
        then have nw: "\<forall>V\<in>set nw. V \<noteq> [] \<and> P V" and fp'': "\<forall>p\<in>set fp''. Q p"
          by simp_all
        from "1"(1)[OF rec] nw fp'' r show ?thesis by blast
      qed
    qed
  qed
  from this[OF run] ws0 fp0 show ?thesis by blast
qed

lemma all_paths_invariant:
  assumes run: "all_paths c g s e minl t maxl = Some (Inr paths)"
    and init: "\<And>ds x. forward_links g s = Some ds \<Longrightarrow> x \<in> set ds \<Longrightarrow> P [x]"
    and step: "\<And>d W n ds. start_end_depth_of c g s e = Inr d \<Longrightarrow> P W \<Longrightarrow> W \<noteq> []
            \<Longrightarrow> last W \<noteq> e \<Longrightarrow> get_path_length g W \<le> maxl
            \<Longrightarrow> forward_links g (last W) = Some ds \<Longrightarrow> n \<in> set ds
            \<Longrightarrow> count_so_far W n < max_path_segment_count g n d \<Longrightarrow> P (W @ [n])"
    and fin: "\<And>W. P W \<Longrightarrow> W \<noteq> [] \<Longrightarrow> last W = e \<Longrightarrow> minl \<le> get_path_length g (butlast W)
            \<Longrightarrow> Q (butlast W)"
  shows "\<forall>p\<in>set paths. Q p"
proof (cases "forward_links g s")
  case None
  then show ?thesis using run by (simp add: all_paths_def)
next
  case (Some ds)
  then obtain d where d: "start_end_depth_of c g s e = Inr d"
    and lp: "all_paths_loop c g e minl maxl d (map (\<lambda>x. [x]) ds) [] = Some (Inr paths)"
    using run by (auto simp: all_paths_def split: sum.splits)
  have start: "\<forall>W\<in>set (map (\<lambda>x. [x]) ds). W \<noteq> [] \<and> P W" using init[OF Some] by auto
  have none: "\<forall>p\<in>set ([]::path list). Q p" by simp
  have step': "P (W @ [n])"
    if "P W" "W \<noteq> []" "last W \<noteq> e" "get_path_length g W \<le> maxl"
      "forward_links g (last W) = Some ds'" "n \<in> set ds'"
      "count_so_far W n < max_path_segment_count g n d" for W n ds'
    using step[OF d that] .
  show ?thesis
    by (rule all_paths_loop_invariant[where P=P and Q=Q, OF step' fin lp start none])
qed

text \<open>
  Claim C8. When the start anchor has no entry in the adjacency map, \<^verbatim>\<open>all_paths\<close> returns
  the empty list, whatever the other arguments are: it returns (the result is not \<open>None\<close>)
  and it raises nothing (the result is not an error).
\<close>

theorem all_paths_no_adjacency:
  assumes "forward_links g start = None"
  shows "all_paths c g start end min_length target_length max_length = Some (Inr [])"
  using assms by (simp add: all_paths_def)

theorem all_paths_no_adjacency_witness:
  "forward_links fork_graph 4 = None \<and> all_paths fork_ctx fork_graph 4 1 8 10 13 = Some (Inr [])"
proof -
  have h: "forward_links fork_graph 4 = None" by (simp add: fork_graph_def)
  from all_paths_no_adjacency[OF h] h show ?thesis by simp
qed

text \<open>The lower bound is tested on every result. The upper bound is tested when a working
  path is extended, so every non-empty result is within both bounds.\<close>

lemma all_paths_nonempty_within_bounds:
  assumes "all_paths c g start end min_length target_length max_length = Some (Inr paths)"
    and "p \<in> set paths"
  shows "min_length \<le> get_path_length g p
       \<and> (p \<noteq> [] \<longrightarrow> get_path_length g p \<le> max_length)"
proof -
  have "\<forall>p\<in>set paths. min_length \<le> get_path_length g p
          \<and> (p \<noteq> [] \<longrightarrow> get_path_length g p \<le> max_length)"
  proof (rule all_paths_invariant[where
        P="\<lambda>W. butlast W \<noteq> [] \<longrightarrow> get_path_length g (butlast W) \<le> max_length",
        OF assms(1)])
  qed simp_all
  then show ?thesis using assms(2) by blast
qed

text \<open>
  Claim C2 fails on the code. In the graph where segment 1 leads to segments 2 and 3, and
  each of them leads to segment 4, \<^verbatim>\<open>all_paths\<close> is called with the start anchor 2, the end
  anchor 4, \<open>min_length = -5\<close>, \<open>target_length = -3\<close> and \<open>max_length = -1\<close>. The start
  anchor leads directly to the end anchor, so the working path \<open>[4]\<close> gives the empty path
  as a result; it is tested against \<open>min_length\<close> only, and it is returned although its
  length 0 is above \<open>max_length\<close>. The docstring of \<^verbatim>\<open>all_paths\<close> says that the returned paths
  are within the length bounds.
\<close>

theorem all_paths_empty_path_above_max_length:
  "all_paths fork_ctx fork_graph 2 4 (- 5) (- 3) (- 1) = Some (Inr [[]])
   \<and> - 5 \<le> get_path_length fork_graph []
   \<and> \<not> get_path_length fork_graph [] \<le> - 1"
proof -
  have "all_paths fork_ctx fork_graph 2 4 (- 5) (- 3) (- 1) = Some (Inr [[]])" by code_simp
  then show ?thesis by (simp add: fork_graph_def)
qed

section \<open>The final paths of \<^verbatim>\<open>progressive_path_find\<close>\<close>

lemma set_add_final: "set (add_final fp x) = insert x (set fp)"
  by (auto simp: add_final_def)

lemma set_add_final_parts:
  "set (add_final_parts p flip parts fp)
     = set fp \<union> (\<lambda>part. if flip then reverse_path (p @ part) else p @ part) ` set parts"
  by (induction parts arbitrary: fp) (simp_all add: set_add_final)

lemma add_final_parts_invariant:
  "\<forall>x\<in>set fp. F x \<Longrightarrow>
   \<forall>part\<in>set parts. F (if flip then reverse_path (p @ part) else p @ part) \<Longrightarrow>
   \<forall>x\<in>set (add_final_parts p flip parts fp). F x"
  unfolding set_add_final_parts by blast

lemma extend_path_invariant:
  assumes join: "\<And>V. grown g d b V \<Longrightarrow> V \<noteq> [] \<Longrightarrow> linked g (last p) (- last V)
             \<Longrightarrow> F (if flip then reverse_path (p @ reverse_path V) else p @ reverse_path V)"
    and dict: "dict_of g d b dict"
    and p: "grown g d a p" "p \<noteq> []" "forward_links g (last p) = Some ds"
  shows "set rest \<subseteq> set ds \<Longrightarrow> \<forall>W\<in>set (fst acc). grown g d a W \<Longrightarrow> \<forall>x\<in>set (snd acc). F x
     \<Longrightarrow> (\<forall>W\<in>set (fst (extend_path g d maxl dict flip p rest acc)). grown g d a W)
       \<and> (\<forall>x\<in>set (snd (extend_path g d maxl dict flip p rest acc)). F x)"
proof (induction rest arbitrary: acc)
  case Nil
  then show ?case by simp
next
  case (Cons n rest)
  obtain nw fp where acc: "acc = (nw, fp)" by (cases acc)
  have n: "n \<in> set ds" and rest: "set rest \<subseteq> set ds" using Cons.prems(1) by auto
  show ?case
  proof (cases "count_so_far p n < max_path_segment_count g n d")
    case False
    then show ?thesis using Cons.IH[OF rest Cons.prems(2,3)] acc by simp
  next
    case True
    let ?nw = "if get_path_length g (tl p @ [n]) \<le> maxl then nw @ [p @ [n]] else nw"
    let ?fp = "case dict n of None \<Rightarrow> fp | Some parts \<Rightarrow> add_final_parts p flip parts fp"
    have g1: "grown g d a (p @ [n])" using grown.extend[OF p n True] .
    have nw: "\<forall>W\<in>set (fst (?nw, ?fp)). grown g d a W" using Cons.prems(2) acc g1 by auto
    have fp: "\<forall>x\<in>set (snd (?nw, ?fp)). F x"
    proof (cases "dict n")
      case None
      then show ?thesis using Cons.prems(3) acc by simp
    next
      case (Some parts)
      have "F (if flip then reverse_path (p @ part) else p @ part)" if "part \<in> set parts" for part
      proof -
        from dict Some that obtain V where V: "grown g d b V" "V \<noteq> []"
          "part = reverse_path V" "n = - last V"
          unfolding dict_of_def by blast
        have "linked g (last p) (- last V)" using p(3) n V(4) by (simp add: linked_def)
        from join[OF V(1,2) this] V(3) show ?thesis by (cases flip) simp_all
      qed
      then have parts_ok:
        "\<forall>part\<in>set parts. F (if flip then reverse_path (p @ part) else p @ part)"
        by blast
      have fp0: "\<forall>x\<in>set fp. F x" using Cons.prems(3) acc by simp
      have "\<forall>x\<in>set (add_final_parts p flip parts fp). F x"
        by (rule add_final_parts_invariant[OF fp0 parts_ok])
      then show ?thesis using Some by simp
    qed
    have "extend_path g d maxl dict flip p (n # rest) acc
            = extend_path g d maxl dict flip p rest (?nw, ?fp)"
      using True acc by simp
    with Cons.IH[OF rest nw fp] show ?thesis by metis
  qed
qed

lemma advance_path_invariant:
  assumes join: "\<And>W V. grown g d a W \<Longrightarrow> W \<noteq> [] \<Longrightarrow> grown g d b V \<Longrightarrow> V \<noteq> []
             \<Longrightarrow> linked g (last W) (- last V)
             \<Longrightarrow> F (if flip then reverse_path (W @ reverse_path V) else W @ reverse_path V)"
    and dict: "dict_of g d b dict"
    and run: "advance_path g d maxl dict flip shortest p acc = Inr acc'"
    and p: "grown g d a p"
    and acc: "\<forall>W\<in>set (fst acc). grown g d a W" "\<forall>x\<in>set (snd acc). F x"
  shows "(\<forall>W\<in>set (fst acc'). grown g d a W) \<and> (\<forall>x\<in>set (snd acc'). F x)"
proof (cases "shortest < get_path_length g p")
  case True
  then show ?thesis using run p acc by (auto simp: advance_path_def)
next
  case False
  then have ne: "p \<noteq> []" using run by (auto simp: advance_path_def split: if_splits)
  show ?thesis
  proof (cases "forward_links g (last p)")
    case None
    then show ?thesis using run False ne acc by (simp add: advance_path_def)
  next
    case (Some ds)
    have acc': "acc' = extend_path g d maxl dict flip p ds acc"
      using run False ne Some by (simp add: advance_path_def)
    have j: "F (if flip then reverse_path (p @ reverse_path V) else p @ reverse_path V)"
      if "grown g d b V" "V \<noteq> []" "linked g (last p) (- last V)" for V
      using join[OF p ne that] .
    show ?thesis unfolding acc'
      by (rule extend_path_invariant[where b=b and ds=ds, OF j dict p ne Some _ acc]) simp_all
  qed
qed

lemma advance_round_invariant:
  assumes join: "\<And>W V. grown g d a W \<Longrightarrow> W \<noteq> [] \<Longrightarrow> grown g d b V \<Longrightarrow> V \<noteq> []
             \<Longrightarrow> linked g (last W) (- last V)
             \<Longrightarrow> F (if flip then reverse_path (W @ reverse_path V) else W @ reverse_path V)"
    and dict: "dict_of g d b dict"
  shows "advance_round g d maxl dict flip shortest ws acc = Inr acc'
     \<Longrightarrow> \<forall>W\<in>set ws. grown g d a W
     \<Longrightarrow> \<forall>W\<in>set (fst acc). grown g d a W \<Longrightarrow> \<forall>x\<in>set (snd acc). F x
     \<Longrightarrow> (\<forall>W\<in>set (fst acc'). grown g d a W) \<and> (\<forall>x\<in>set (snd acc'). F x)"
proof (induction ws arbitrary: acc)
  case Nil
  then show ?case by simp
next
  case (Cons p ws)
  from Cons.prems(1) obtain acc1 where
    v: "advance_path g d maxl dict flip shortest p acc = Inr acc1" and
    r: "advance_round g d maxl dict flip shortest ws acc1 = Inr acc'"
    by (auto split: sum.splits)
  have p: "grown g d a p" and rest: "\<forall>W\<in>set ws. grown g d a W" using Cons.prems(2) by simp_all
  have inv1: "(\<forall>W\<in>set (fst acc1). grown g d a W) \<and> (\<forall>x\<in>set (snd acc1). F x)"
    by (rule advance_path_invariant[where b=b and F=F, OF join dict v p Cons.prems(3,4)])
  show ?case by (rule Cons.IH[OF r rest]) (use inv1 in blast)+
qed

lemma advance_loop_invariant:
  assumes join: "\<And>W V. grown g d a W \<Longrightarrow> W \<noteq> [] \<Longrightarrow> grown g d b V \<Longrightarrow> V \<noteq> []
             \<Longrightarrow> linked g (last W) (- last V)
             \<Longrightarrow> F (if flip then reverse_path (W @ reverse_path V) else W @ reverse_path V)"
    and dict: "dict_of g d b dict"
    and run: "advance_loop maxp g d maxl dict flip ws fp = Some (Inr (ws', fp'))"
    and ws0: "\<forall>W\<in>set ws. grown g d a W"
    and fp0: "\<forall>x\<in>set fp. F x"
  shows "(\<forall>W\<in>set ws'. grown g d a W) \<and> (\<forall>x\<in>set fp'. F x)"
proof -
  have "(g1, d1, maxl1, dict1, flip1) = (g, d, maxl, dict, flip)
      \<longrightarrow> (\<forall>W\<in>set ws1. grown g d a W) \<longrightarrow> (\<forall>x\<in>set fp1. F x)
      \<longrightarrow> (\<forall>wsr fpr. r = Inr (wsr, fpr)
             \<longrightarrow> (\<forall>W\<in>set wsr. grown g d a W) \<and> (\<forall>x\<in>set fpr. F x))"
    if "advance_loop maxp1 g1 d1 maxl1 dict1 flip1 ws1 fp1 = Some r"
    for maxp1 g1 d1 maxl1 dict1 flip1 ws1 fp1 r
    using that
  proof (induction maxp1 g1 d1 maxl1 dict1 flip1 ws1 fp1 r
      rule: advance_loop.raw_induct[rotated 1, consumes 1])
    case (1 loop maxp1 g1 d1 maxl1 dict1 flip1 ws1 fp1 r)
    show ?case
    proof (intro impI allI)
      fix wsr fpr
      assume eq: "(g1, d1, maxl1, dict1, flip1) = (g, d, maxl, dict, flip)"
        and ws: "\<forall>W\<in>set ws1. grown g d a W" and fp: "\<forall>x\<in>set fp1. F x"
        and r: "r = Inr (wsr, fpr)"
      show "(\<forall>W\<in>set wsr. grown g d a W) \<and> (\<forall>x\<in>set fpr. F x)"
      proof (cases "0 < length ws1 \<and> int (length ws1) \<le> maxp1")
        case False
        then have "wsr = ws1 \<and> fpr = fp1" using "1"(2) r by (auto split: if_splits)
        then show ?thesis using ws fp by simp
      next
        case True
        then obtain nw fp2 where
          rd: "advance_round g d maxl dict flip (min_list (map (get_path_length g) ws1)) ws1
                 ([], fp1) = Inr (nw, fp2)"
          and rec: "loop maxp1 g d maxl dict flip nw fp2 = Some r"
          using "1"(2) r eq by (auto split: sum.splits if_splits)
        have "(\<forall>W\<in>set (fst (nw, fp2)). grown g d a W) \<and> (\<forall>x\<in>set (snd (nw, fp2)). F x)"
          by (rule advance_round_invariant[where b=b and F=F, OF join dict rd ws])
             (use fp in simp_all)
        then have nw: "\<forall>W\<in>set nw. grown g d a W" and fp2: "\<forall>x\<in>set fp2. F x"
          by simp_all
        from "1"(1)[OF rec] nw fp2 r show ?thesis by blast
      qed
    qed
  qed
  from this[OF run] ws0 fp0 show ?thesis by blast
qed

lemma score_for_cull_paths:
  "fst ` set (score_for_cull c g sa sch pas sl paths) \<subseteq> tl ` set paths"
  by (induction paths) (auto simp: Let_def split: option.splits)

lemma cull_threshold_loop_subset:
  assumes "cull_threshold_loop maxp scored best thr = Some surviving"
  shows "set surviving \<subseteq> set scored"
  using assms
proof (induction maxp scored best thr surviving
    rule: cull_threshold_loop.raw_induct[rotated 1, consumes 1])
  case (1 loop maxp scored best thr surviving)
  then show ?case by (auto simp: Let_def split: if_splits)
qed

lemma scored_paths_for_cull_paths:
  assumes "scored_paths_for_cull c g paths sq sch = Inr scored"
  shows "fst ` set scored \<subseteq> tl ` set paths"
proof -
  from assms obtain sa pas sl where
    "scored = sort_key (\<lambda>x. - snd x) (score_for_cull c g sa sch pas sl paths)"
    by (auto simp: scored_paths_for_cull_def Let_def split: if_splits sum.splits)
  then have "set scored = set (score_for_cull c g sa sch pas sl paths)" by simp
  then show ?thesis using score_for_cull_paths[of c g sa sch pas sl paths] by simp
qed

lemma cull_paths_subset:
  assumes "cull_paths c g paths sq sch ex = Some (Inr culled)"
  shows "set culled \<subseteq> tl ` set paths"
proof (cases "scored_paths_for_cull c g paths sq sch")
  case (Inl e)
  then show ?thesis using assms by (simp add: cull_paths_def)
next
  case (Inr scored)
  have sc: "fst ` set scored \<subseteq> tl ` set paths" using scored_paths_for_cull_paths[OF Inr] .
  show ?thesis
  proof (cases "culled = []")
    case True
    then show ?thesis by simp
  next
    case False
    then obtain surviving where
      lp: "cull_threshold_loop (PROGRESSIVE_PATH_SEARCH_MAX_WORKING_PATHS c) scored
             (snd (hd scored)) (PROGRESSIVE_PATH_SEARCH_SCORE_FRACTION c) = Some surviving"
      and cu: "culled = map fst surviving
               \<or> culled = take (length (map fst surviving) div 2) (map fst surviving)"
      using assms Inr
      by (auto simp: cull_paths_def Let_def split: if_splits option.splits)
    have "set culled \<subseteq> fst ` set surviving"
      using cu set_take_subset[of "length (map fst surviving) div 2" "map fst surviving"]
      by auto
    also have "\<dots> \<subseteq> fst ` set scored" using cull_threshold_loop_subset[OF lp] by blast
    finally show ?thesis using sc by blast
  qed
qed

lemma advance_paths_invariant:
  assumes join: "\<And>W V. grown g d a W \<Longrightarrow> W \<noteq> [] \<Longrightarrow> grown g d b V \<Longrightarrow> V \<noteq> []
             \<Longrightarrow> linked g (last W) (- last V)
             \<Longrightarrow> F (if flip then reverse_path (W @ reverse_path V) else W @ reverse_path V)"
    and dict: "dict_of g d b dict"
    and run: "advance_paths c ws dict shortest fp flip sq sch ex g d tmax = Some (Inr (ws', fp'))"
    and ws0: "\<forall>W\<in>set ws. grown g d a W"
    and fp0: "\<forall>x\<in>set fp. F x"
  shows "(\<forall>W\<in>set ws'. grown g d a W) \<and> (\<forall>x\<in>set fp'. F x)"
proof -
  from run obtain ws1 where
    lp: "advance_loop (PROGRESSIVE_PATH_SEARCH_MAX_WORKING_PATHS c) g d (tmax - shortest)
           dict flip ws fp = Some (Inr (ws1, fp'))"
    and cases: "ws' = ws1 \<or> cull_paths c g ws1 sq sch ex = Some (Inr ws')"
    by (auto simp: advance_paths_def Let_def split: option.splits sum.splits if_splits)
  have inv: "(\<forall>W\<in>set ws1. grown g d a W) \<and> (\<forall>x\<in>set fp'. F x)"
    by (rule advance_loop_invariant[where b=b and F=F, OF join dict lp ws0 fp0])
  from cases show ?thesis
  proof
    assume "ws' = ws1"
    then show ?thesis using inv by simp
  next
    assume "cull_paths c g ws1 sq sch ex = Some (Inr ws')"
    from cull_paths_subset[OF this] have "set ws' \<subseteq> tl ` set ws1" .
    then have "\<forall>W\<in>set ws'. grown g d a W" using inv grown.strip by blast
    then show ?thesis using inv by simp
  qed
qed

lemma build_path_dictionary_from_dict_of:
  "build_path_dictionary_from dict ps = Inr dict' \<Longrightarrow> dict_of g d b dict
     \<Longrightarrow> \<forall>V\<in>set ps. grown g d b V \<Longrightarrow> dict_of g d b dict'"
proof (induction ps arbitrary: dict)
  case Nil
  then show ?case by simp
next
  case (Cons p ps)
  from Cons.prems(1) obtain k r where kr: "reverse_path p = k # r"
    and rec: "build_path_dictionary_from
                (dict(k \<mapsto> (case dict k of None \<Rightarrow> [] | Some l \<Rightarrow> l) @ [k # r])) ps = Inr dict'"
    by (auto split: list.splits)
  have pne: "p \<noteq> []" using kr by (auto simp: reverse_path_def)
  have k: "k = - last p" using kr pne by (cases p rule: rev_cases) (auto simp: reverse_path_def)
  have gp: "grown g d b p" using Cons.prems(3) by simp
  have "dict_of g d b (dict(k \<mapsto> (case dict k of None \<Rightarrow> [] | Some l \<Rightarrow> l) @ [k # r]))"
    unfolding dict_of_def
  proof (intro allI impI)
    fix n parts part
    assume lookup: "(dict(k \<mapsto> (case dict k of None \<Rightarrow> [] | Some l \<Rightarrow> l) @ [k # r])) n = Some parts"
      and mem: "part \<in> set parts"
    show "\<exists>V. grown g d b V \<and> V \<noteq> [] \<and> part = reverse_path V \<and> n = - last V"
    proof (cases "n = k \<and> part = k # r")
      case True
      then show ?thesis using gp pne kr k by metis
    next
      case False
      then have "\<exists>parts0. dict n = Some parts0 \<and> part \<in> set parts0"
        using lookup mem by (auto split: if_splits option.splits)
      then show ?thesis using Cons.prems(2) unfolding dict_of_def by blast
    qed
  qed
  from Cons.IH[OF rec this] Cons.prems(3) show ?case by simp
qed

lemma build_path_dictionary_dict_of:
  assumes "build_path_dictionary ps = Inr dict" "\<forall>V\<in>set ps. grown g d b V"
  shows "dict_of g d b dict"
proof -
  have e: "dict_of g d b Map.empty" by (simp add: dict_of_def)
  show ?thesis
    by (rule build_path_dictionary_from_dict_of
          [OF assms(1)[unfolded build_path_dictionary_def] e assms(2)])
qed

lemma reverse_path_append: "reverse_path (p @ q) = reverse_path q @ reverse_path p"
  by (simp add: reverse_path_def)

lemma reverse_path_reverse_path: "reverse_path (reverse_path p) = p"
  by (simp add: reverse_path_def rev_map comp_def)

lemma join_forward:
  assumes "grown g d s W" "W \<noteq> []" "grown g d (- e) V" "V \<noteq> []"
    "linked g (last W) (- last V)"
  shows "joined g d s e (if False then reverse_path (W @ reverse_path V) else W @ reverse_path V)"
  using assms unfolding joined_def by auto

lemma join_reverse:
  assumes "grown g d (- e) W" "W \<noteq> []" "grown g d s V" "V \<noteq> []"
    "linked g (last W) (- last V)"
  shows "joined g d s e (if True then reverse_path (W @ reverse_path V) else W @ reverse_path V)"
proof -
  have "reverse_path (W @ reverse_path V) = V @ reverse_path W"
    by (simp add: reverse_path_append reverse_path_reverse_path)
  then show ?thesis using assms unfolding joined_def by auto
qed

lemma progressive_loop_step:
  assumes "(case py_min (map (\<lambda>x. get_path_length g (tl x)) rv) of
        Inl e \<Rightarrow> Some (Inl e)
      | Inr shortest_reverse_path \<Rightarrow>
     (case build_path_dictionary rv of
        Inl e \<Rightarrow> Some (Inl e)
      | Inr reverse_paths_dict \<Rightarrow>
     (case advance_paths c fw reverse_paths_dict shortest_reverse_path
             fp False sq sch ex g d maxl of
        None \<Rightarrow> None
      | Some (Inl e) \<Rightarrow> Some (Inl e)
      | Some (Inr (fw', fp1)) \<Rightarrow>
     if fw' = [] then Some (Inr fp1)
     else
     (case py_min (map (\<lambda>x. get_path_length g (tl x)) fw') of
        Inl e \<Rightarrow> Some (Inl e)
      | Inr shortest_forward_path \<Rightarrow>
     (case build_path_dictionary fw' of
        Inl e \<Rightarrow> Some (Inl e)
      | Inr forward_paths_dict \<Rightarrow>
     (case advance_paths c rv forward_paths_dict shortest_forward_path
             fp1 True rsq sch ex g d maxl of
        None \<Rightarrow> None
      | Some (Inl e) \<Rightarrow> Some (Inl e)
      | Some (Inr (rv', fp2)) \<Rightarrow>
     if rv' = [] then Some (Inr fp2)
     else loop c g sq rsq sch ex d maxl fw' rv' fp2)))))) = Some (Inr finals)"
  shows "\<exists>srp rdict fw' fp1.
           build_path_dictionary rv = Inr rdict
         \<and> advance_paths c fw rdict srp fp False sq sch ex g d maxl = Some (Inr (fw', fp1))
         \<and> (finals = fp1
            \<or> (\<exists>sfp fdict rv' fp2.
                  build_path_dictionary fw' = Inr fdict
                \<and> advance_paths c rv fdict sfp fp1 True rsq sch ex g d maxl
                    = Some (Inr (rv', fp2))
                \<and> (finals = fp2
                   \<or> loop c g sq rsq sch ex d maxl fw' rv' fp2 = Some (Inr finals))))"
proof -
  from assms obtain srp where 1: "py_min (map (\<lambda>x. get_path_length g (tl x)) rv) = Inr srp"
    by (auto split: sum.splits)
  from assms 1 obtain rdict where 2: "build_path_dictionary rv = Inr rdict"
    by (auto split: sum.splits)
  from assms 1 2 obtain fw' fp1 where
    3: "advance_paths c fw rdict srp fp False sq sch ex g d maxl = Some (Inr (fw', fp1))"
    by (auto split: sum.splits option.splits)
  show ?thesis
  proof (cases "fw' = []")
    case True
    then have "finals = fp1" using assms 1 2 3 by simp
    then show ?thesis using 2 3 by blast
  next
    case False
    from assms 1 2 3 False obtain sfp where
      4: "py_min (map (\<lambda>x. get_path_length g (tl x)) fw') = Inr sfp"
      by (auto split: sum.splits)
    from assms 1 2 3 False 4 obtain fdict where 5: "build_path_dictionary fw' = Inr fdict"
      by (auto split: sum.splits)
    from assms 1 2 3 False 4 5 obtain rv' fp2 where
      6: "advance_paths c rv fdict sfp fp1 True rsq sch ex g d maxl = Some (Inr (rv', fp2))"
      by (auto split: sum.splits option.splits)
    have "finals = fp2 \<or> loop c g sq rsq sch ex d maxl fw' rv' fp2 = Some (Inr finals)"
      using assms 1 2 3 False 4 5 6 by (cases "rv' = []") simp_all
    then show ?thesis using 2 3 5 6 by blast
  qed
qed

lemma progressive_loop_invariant:
  assumes run: "progressive_loop c g sq rsq sch ex d maxl fw rv fp = Some (Inr finals)"
    and fw0: "\<forall>W\<in>set fw. grown g d s W"
    and rv0: "\<forall>V\<in>set rv. grown g d (- e) V"
    and fp0: "\<forall>x\<in>set fp. joined g d s e x"
  shows "\<forall>x\<in>set finals. joined g d s e x"
proof -
  have "(g1, d1) = (g, d)
      \<longrightarrow> (\<forall>W\<in>set fw1. grown g d s W) \<longrightarrow> (\<forall>V\<in>set rv1. grown g d (- e) V)
      \<longrightarrow> (\<forall>x\<in>set fp1. joined g d s e x)
      \<longrightarrow> (\<forall>fin. r = Inr fin \<longrightarrow> (\<forall>x\<in>set fin. joined g d s e x))"
    if "progressive_loop c1 g1 sq1 rsq1 sch1 ex1 d1 maxl1 fw1 rv1 fp1 = Some r"
    for c1 g1 sq1 rsq1 sch1 ex1 d1 maxl1 fw1 rv1 fp1 r
    using that
  proof (induction c1 g1 sq1 rsq1 sch1 ex1 d1 maxl1 fw1 rv1 fp1 r
      rule: progressive_loop.raw_induct[rotated 1, consumes 1])
    case (1 loop c1 g1 sq1 rsq1 sch1 ex1 d1 maxl1 fw1 rv1 fp1 r)
    show ?case
    proof (intro impI allI)
      fix fin
      assume eq: "(g1, d1) = (g, d)"
        and fw: "\<forall>W\<in>set fw1. grown g d s W" and rv: "\<forall>V\<in>set rv1. grown g d (- e) V"
        and fp: "\<forall>x\<in>set fp1. joined g d s e x"
        and r: "r = Inr fin"
      from eq have g1: "g1 = g" and d1: "d1 = d" by simp_all
      from progressive_loop_step[where loop=loop, OF "1"(2)[unfolded r g1 d1]]
      obtain srp rdict fw' fp2 where
        rd: "build_path_dictionary rv1 = Inr rdict"
        and adv1: "advance_paths c1 fw1 rdict srp fp1 False sq1 sch1 ex1 g d maxl1
                     = Some (Inr (fw', fp2))"
        and rest: "fin = fp2
            \<or> (\<exists>sfp fdict rv' fp3.
                  build_path_dictionary fw' = Inr fdict
                \<and> advance_paths c1 rv1 fdict sfp fp2 True rsq1 sch1 ex1 g d maxl1
                    = Some (Inr (rv', fp3))
                \<and> (fin = fp3
                   \<or> loop c1 g sq1 rsq1 sch1 ex1 d maxl1 fw' rv' fp3 = Some (Inr fin)))"
        by blast
      have dr: "dict_of g d (- e) rdict"
        by (rule build_path_dictionary_dict_of[OF rd rv])
      have inv1: "(\<forall>W\<in>set fw'. grown g d s W) \<and> (\<forall>x\<in>set fp2. joined g d s e x)"
        by (rule advance_paths_invariant[where b="- e" and F="joined g d s e" and flip=False,
              OF join_forward dr adv1 fw fp])
      from rest show "\<forall>x\<in>set fin. joined g d s e x"
      proof
        assume "fin = fp2"
        then show ?thesis using inv1 by simp
      next
        assume "\<exists>sfp fdict rv' fp3.
                  build_path_dictionary fw' = Inr fdict
                \<and> advance_paths c1 rv1 fdict sfp fp2 True rsq1 sch1 ex1 g d maxl1
                    = Some (Inr (rv', fp3))
                \<and> (fin = fp3
                   \<or> loop c1 g sq1 rsq1 sch1 ex1 d maxl1 fw' rv' fp3 = Some (Inr fin))"
        then obtain sfp fdict rv' fp3 where
          fd: "build_path_dictionary fw' = Inr fdict"
          and adv2: "advance_paths c1 rv1 fdict sfp fp2 True rsq1 sch1 ex1 g d maxl1
                    = Some (Inr (rv', fp3))"
          and last: "fin = fp3
                   \<or> loop c1 g sq1 rsq1 sch1 ex1 d maxl1 fw' rv' fp3 = Some (Inr fin)"
          by blast
        have d2: "dict_of g d s fdict"
          by (rule build_path_dictionary_dict_of[OF fd]) (use inv1 in blast)
        have fp2: "\<forall>x\<in>set fp2. joined g d s e x" using inv1 by blast
        have inv2: "(\<forall>V\<in>set rv'. grown g d (- e) V) \<and> (\<forall>x\<in>set fp3. joined g d s e x)"
          by (rule advance_paths_invariant[where b=s and F="joined g d s e" and flip=True,
                OF join_reverse d2 adv2 rv fp2])
        from last show ?thesis
        proof
          assume "fin = fp3"
          then show ?thesis using inv2 by simp
        next
          assume "loop c1 g sq1 rsq1 sch1 ex1 d maxl1 fw' rv' fp3 = Some (Inr fin)"
          from "1"(1)[OF this] inv1 inv2 show ?thesis by blast
        qed
      qed
    qed
  qed
  from this[OF run] fw0 rv0 fp0 show ?thesis by blast
qed

lemma progressive_path_find_joined:
  assumes "progressive_path_find c g s e minl maxl sq sch ex = Some (Inr paths)"
    and "p \<in> set paths"
  shows "\<exists>d x. start_end_depth_of c g s e = Inr d \<and> joined g d s e x \<and> p = butlast (tl x)"
proof -
  from assms(1) obtain d finals where
    d: "start_end_depth_of c g s e = Inr d"
    and lp: "progressive_loop c g sq (reverse_complement c sq) sch ex d maxl [[s]] [[- e]] []
               = Some (Inr finals)"
    and ps: "paths = filter (\<lambda>x. minl \<le> get_path_length g x \<and> get_path_length g x \<le> maxl)
                       (map (\<lambda>x. butlast (tl x)) finals)"
    by (auto simp: progressive_path_find_def Let_def split: sum.splits option.splits)
  have "\<forall>x\<in>set finals. joined g d s e x"
    by (rule progressive_loop_invariant[OF lp]) (simp_all add: grown.anchor)
  moreover from assms(2) ps obtain x where "x \<in> set finals" "p = butlast (tl x)" by auto
  ultimately show ?thesis using d by blast
qed

section \<open>\<^verbatim>\<open>cull_paths\<close> and the anchor of a working path\<close>

lemma length_filter_mono:
  "(\<And>x. x \<in> set xs \<Longrightarrow> P x \<Longrightarrow> Q x) \<Longrightarrow> length (filter P xs) \<le> length (filter Q xs)"
  by (induction xs) auto

lemma cull_threshold_loop_diverges:
  assumes "maxp div 2 < int (length (filter (\<lambda>sp. best \<le> snd sp) scored))"
    and "0 \<le> best" and "thr \<le> 1"
  shows "cull_threshold_loop maxp scored best thr = None"
proof -
  have "\<not> (maxp div 2 < int (length (filter (\<lambda>sp. best \<le> snd sp) scored))
            \<and> 0 \<le> best \<and> thr \<le> 1)"
    if "cull_threshold_loop maxp scored best thr = Some y" for maxp scored best thr y
    using that
  proof (induction maxp scored best thr y
      rule: cull_threshold_loop.raw_induct[rotated 1, consumes 1])
    case (1 loop maxp scored best thr y)
    show ?case
    proof
      assume A: "maxp div 2 < int (length (filter (\<lambda>sp. best \<le> snd sp) scored))
            \<and> 0 \<le> best \<and> thr \<le> 1"
      then have "best * thr \<le> best" by (simp add: mult_left_le)
      then have "length (filter (\<lambda>sp. best \<le> snd sp) scored)
                   \<le> length (filter (\<lambda>sp. best * thr \<le> snd sp) scored)"
        by (intro length_filter_mono) simp
      with A have big: "maxp div 2 < int (length (filter (\<lambda>sp. best * thr \<le> snd sp) scored))"
        by linarith
      from "1"(2) big have rec: "loop maxp scored best (1 - (1 - thr) / 2) = Some y"
        by (simp add: Let_def)
      have "1 - (1 - thr) / 2 \<le> 1" using A by simp
      with "1"(1)[OF rec] A show False by blast
    qed
  qed
  with assms show ?thesis by (cases "cull_threshold_loop maxp scored best thr") auto
qed

text \<open>When \<^verbatim>\<open>cull_paths\<close> returns a list for a non-empty list of paths, the list it
  returns is shorter.\<close>

lemma score_for_cull_length:
  "length (score_for_cull c g sa sch pas sl paths) \<le> length paths"
  by (induction paths) (auto simp: Let_def split: option.splits)

lemma cull_threshold_loop_length:
  assumes "cull_threshold_loop maxp scored best thr = Some surviving"
  shows "length surviving \<le> length scored"
  using assms
proof (induction maxp scored best thr surviving
    rule: cull_threshold_loop.raw_induct[rotated 1, consumes 1])
  case (1 loop maxp scored best thr surviving)
  then show ?case by (auto simp: Let_def split: if_splits)
qed

lemma cull_paths_fewer:
  assumes "cull_paths c g paths sq sch ex = Some (Inr culled)" and "paths \<noteq> []"
  shows "length culled < length paths"
proof (cases "scored_paths_for_cull c g paths sq sch")
  case (Inl e)
  then show ?thesis using assms by (simp add: cull_paths_def)
next
  case (Inr scored)
  then obtain sa pas sl where
    "scored = sort_key (\<lambda>x. - snd x) (score_for_cull c g sa sch pas sl paths)"
    by (auto simp: scored_paths_for_cull_def Let_def split: if_splits sum.splits)
  then have sc: "length scored \<le> length paths"
    using score_for_cull_length[of c g sa sch pas sl paths] by simp
  show ?thesis
  proof (cases "culled = []")
    case True
    then show ?thesis using assms(2) by simp
  next
    case False
    then obtain surviving where
      lp: "cull_threshold_loop (PROGRESSIVE_PATH_SEARCH_MAX_WORKING_PATHS c) scored
             (snd (hd scored)) (PROGRESSIVE_PATH_SEARCH_SCORE_FRACTION c) = Some surviving"
      and cu: "(length surviving = length paths \<and> culled = take (length surviving div 2) (map fst surviving))
               \<or> (length surviving \<noteq> length paths \<and> culled = map fst surviving)"
      using assms Inr
      by (auto simp: cull_paths_def Let_def split: if_splits option.splits)
    have le: "length surviving \<le> length paths"
      using cull_threshold_loop_length[OF lp] sc by linarith
    from cu show ?thesis
    proof
      assume "length surviving = length paths
                \<and> culled = take (length surviving div 2) (map fst surviving)"
      then show ?thesis using assms(2) by auto
    next
      assume "length surviving \<noteq> length paths \<and> culled = map fst surviving"
      then show ?thesis using le by auto
    qed
  qed
qed

text \<open>
  Claim C7 fails on the code. With a limit of two working paths, three paths whose
  alignments all give the scaled score 100 keep the threshold loop of \<^verbatim>\<open>cull_paths\<close>
  running forever: every path ties with the best score, so all three survive every
  threshold up to 1, and three is more than half of the limit. The same holds with
  floating-point numbers, where the threshold reaches 1.0 and stays there.
\<close>

theorem cull_paths_ties_diverge:
  "cull_paths tie_ctx loop_graph [[1, 2, 5, 6], [1, 2, 5, 8], [1, 2, 5, 7]] ''ACGT'' () 90 = None"
proof -
  have sc: "scored_paths_for_cull tie_ctx loop_graph [[1, 2, 5, 6], [1, 2, 5, 8], [1, 2, 5, 7]]
              ''ACGT'' () = Inr [([2, 5, 6], 100), ([2, 5, 8], 100), ([2, 5, 7], 100)]"
    by code_simp
  have mp: "PROGRESSIVE_PATH_SEARCH_MAX_WORKING_PATHS tie_ctx = 2"
    "PROGRESSIVE_PATH_SEARCH_SCORE_FRACTION tie_ctx = 0.99"
    by (simp_all add: tie_ctx_def loop_ctx_def)
  have "cull_threshold_loop 2 [([2, 5, 6], 100), ([2, 5, 8], 100), ([2, 5, 7], 100)] 100 0.99
          = None"
    by (rule cull_threshold_loop_diverges) simp_all
  then show ?thesis by (simp add: cull_paths_def sc mp Let_def)
qed

text \<open>
  Claim C5 fails on the code. The first call of \<^verbatim>\<open>advance_paths\<close> in
  \<^verbatim>\<open>progressive_path_find\<close> for the anchors 1 and 9 (the dictionary is the one of the
  reverse path of the anchor 9, the depth is 1) exceeds the limit of two working paths,
  so \<^verbatim>\<open>cull_paths\<close> is called; it returns the path it scored, without the first
  segment, and the forward working path that comes back starts with 2, not with the
  start anchor 1.
\<close>

theorem cull_strips_anchor:
  "build_path_dictionary [[- 9]] = Inr [9 \<mapsto> [[9]]]
   \<and> start_end_depth_of loop_ctx loop_graph 1 9 = Inr 1
   \<and> advance_paths loop_ctx [[1]] [9 \<mapsto> [[9]]] 0 [] False ''ACGT'' () 90 loop_graph 1 1000
       = Some (Inr ([[2, 5, 6]], []))"
proof -
  have "build_path_dictionary [[- 9]] = Inr [9 \<mapsto> [[9]]]"
    by (simp add: build_path_dictionary_def reverse_path_def)
  moreover have "start_end_depth_of loop_ctx loop_graph 1 9 = Inr 1" by code_simp
  moreover have "advance_paths loop_ctx [[1]] [9 \<mapsto> [[9]]] 0 [] False ''ACGT'' () 90
                   loop_graph 1 1000 = Some (Inr ([[2, 5, 6]], []))"
    by code_simp
  ultimately show ?thesis by simp
qed

section \<open>Walks and repetition bounds\<close>

lemma successively_tl: "successively P xs \<Longrightarrow> successively P (tl xs)"
  by (cases xs) (auto simp: successively_Cons)

lemma successively_butlast: "successively P xs \<Longrightarrow> successively P (butlast xs)"
  by (cases xs rule: rev_cases) (auto simp: successively_append_iff)

lemma grown_successively: "grown g d a W \<Longrightarrow> successively (linked g) W"
proof (induction rule: grown.induct)
  case anchor
  show ?case by simp
next
  case (extend W ds n)
  then have "linked g (last W) n" by (simp add: linked_def)
  with extend show ?case by (simp add: successively_append_iff)
next
  case (strip W)
  from strip.IH show ?case by (rule successively_tl)
qed

lemma occurrences_Nil: "occurrences [] x = 0"
  by (simp add: occurrences_def)

lemma occurrences_Cons:
  "occurrences (y # p) x = (if y = x \<or> y = - x then 1 else 0) + occurrences p x"
  by (simp add: occurrences_def)

lemma occurrences_append: "occurrences (p @ q) x = occurrences p x + occurrences q x"
  by (simp add: occurrences_def)

lemma occurrences_neg: "occurrences p (- x) = occurrences p x"
  by (induction p) (auto simp: occurrences_Nil occurrences_Cons)

lemma occurrences_reverse_path: "occurrences (reverse_path p) x = occurrences p x"
proof -
  have "length (filter (\<lambda>y. y = x \<or> y = - x) (map uminus p))
          = length (filter (\<lambda>y. y = x \<or> y = - x) p)"
    by (induction p) auto
  moreover have "length (filter Q (rev q)) = length (filter Q q)" for Q and q :: path
    by (simp flip: rev_filter)
  ultimately show ?thesis by (simp add: occurrences_def reverse_path_def rev_map)
qed

lemma occurrences_tl: "occurrences (tl p) x \<le> occurrences p x"
  by (cases p) (simp_all add: occurrences_Nil occurrences_Cons)

lemma occurrences_butlast: "occurrences (butlast p) x \<le> occurrences p x"
  by (cases p rule: rev_cases) (simp_all add: occurrences_Nil occurrences_append)

lemma occurrences_le_count_so_far: "int (occurrences p x) \<le> count_so_far p x"
  by (induction p) (auto simp: occurrences_Nil occurrences_Cons count_so_far_def)

lemma occurrences_extend:
  assumes bound: "\<forall>x. int (occurrences W x)
                     \<le> max 1 (max (max_path_segment_count g x d) (max_path_segment_count g (- x) d))"
    and count: "count_so_far W n < max_path_segment_count g n d"
  shows "int (occurrences (W @ [n]) x)
           \<le> max 1 (max (max_path_segment_count g x d) (max_path_segment_count g (- x) d))"
proof (cases "n = x \<or> n = - x")
  case False
  then have "occurrences (W @ [n]) x = occurrences W x"
    by (simp add: occurrences_append occurrences_def)
  then show ?thesis using bound by simp
next
  case True
  then have same: "occurrences W x = occurrences W n"
    using occurrences_neg[of W x] by auto
  have "occurrences (W @ [n]) x = occurrences W x + 1"
    using True by (auto simp: occurrences_append occurrences_def)
  moreover have "int (occurrences W n) < max_path_segment_count g n d"
    using occurrences_le_count_so_far[of W n] count by linarith
  ultimately have "int (occurrences (W @ [n]) x) \<le> max_path_segment_count g n d"
    using same by simp
  then show ?thesis using True by auto
qed

lemma grown_occurrences:
  "grown g d a W \<Longrightarrow>
     int (occurrences W x)
       \<le> max 1 (max (max_path_segment_count g x d) (max_path_segment_count g (- x) d))"
proof (induction arbitrary: x rule: grown.induct)
  case anchor
  have "occurrences [a] x \<le> 1" by (simp add: occurrences_Nil occurrences_Cons)
  then show ?case by (simp add: le_max_iff_disj)
next
  case (extend W ds n)
  show ?case by (rule occurrences_extend) (use extend in blast)+
next
  case (strip W)
  show ?case using strip.IH[of x] occurrences_tl[of W x] by linarith
qed

lemma joined_successively:
  assumes "joined g d s e x"
  shows "successively (\<lambda>a b. linked g a b \<or> linked g (- b) (- a)) x"
proof -
  let ?A = "\<lambda>a b. linked g a b \<or> linked g (- b) (- a)"
  from assms obtain W V where WV: "grown g d s W" "grown g d (- e) V" "W \<noteq> []" "V \<noteq> []"
    "linked g (last W) (- last V) \<or> linked g (last V) (- last W)" "x = W @ reverse_path V"
    unfolding joined_def by blast
  have W: "successively ?A W"
    using grown_successively[OF WV(1)] by (rule successively_mono) simp_all
  have "successively (\<lambda>a b. linked g (- b) (- a)) (reverse_path V)"
    using grown_successively[OF WV(2)]
    by (simp add: reverse_path_def successively_map)
  then have V: "successively ?A (reverse_path V)" by (rule successively_mono) simp_all
  have hd: "hd (reverse_path V) = - last V"
    using WV(4) by (cases V rule: rev_cases) (simp_all add: reverse_path_def)
  have ne: "reverse_path V \<noteq> []" using WV(4) by (simp add: reverse_path_def)
  have "?A (last W) (hd (reverse_path V))" using WV(5) hd by auto
  then show ?thesis unfolding WV(6) using W V by (simp add: successively_append_iff)
qed

lemma joined_occurrences:
  assumes "joined g d s e x"
  shows "int (occurrences x y)
           \<le> 2 * max 1 (max (max_path_segment_count g y d) (max_path_segment_count g (- y) d))"
proof -
  from assms obtain W V where WV: "grown g d s W" "grown g d (- e) V" "x = W @ reverse_path V"
    unfolding joined_def by blast
  have "occurrences x y = occurrences W y + occurrences V y"
    by (simp add: WV(3) occurrences_append occurrences_reverse_path)
  then show ?thesis
    using grown_occurrences[OF WV(1), of y] grown_occurrences[OF WV(2), of y] by linarith
qed

lemma all_paths_walk:
  assumes "all_paths c g s e minl t maxl = Some (Inr paths)" and "p \<in> set paths"
  shows "e \<notin> set p \<and> successively (linked g) (s # p @ [e])"
proof -
  have "\<forall>p\<in>set paths. e \<notin> set p \<and> successively (linked g) (s # p @ [e])"
  proof (rule all_paths_invariant
      [where P="\<lambda>W. e \<notin> set (butlast W) \<and> successively (linked g) (s # W)", OF assms(1)])
    fix ds x
    assume "forward_links g s = Some ds" "x \<in> set ds"
    then show "e \<notin> set (butlast [x]) \<and> successively (linked g) (s # [x])"
      by (simp add: linked_def)
  next
    fix d W n ds
    assume W: "e \<notin> set (butlast W) \<and> successively (linked g) (s # W)" "W \<noteq> []"
      "last W \<noteq> e" and l: "forward_links g (last W) = Some ds" "n \<in> set ds"
    have "set W = insert (last W) (set (butlast W))"
      using W(2) by (cases W rule: rev_cases) auto
    then have "e \<notin> set W" using W(1,3) by auto
    moreover have "linked g (last (s # W)) n" using l W(2) by (simp add: linked_def)
    then have "successively (linked g) ((s # W) @ [n])"
      using W(1) by (simp only: successively_append_iff) simp
    ultimately show "e \<notin> set (butlast (W @ [n])) \<and> successively (linked g) (s # W @ [n])"
      by simp
  next
    fix W
    assume W: "e \<notin> set (butlast W) \<and> successively (linked g) (s # W)" "W \<noteq> []" "last W = e"
    have "butlast W @ [e] = W" using W(2,3) by (metis append_butlast_last_id)
    then show "e \<notin> set (butlast W) \<and> successively (linked g) (s # butlast W @ [e])"
      using W(1) by simp
  qed
  then show ?thesis using assms(2) by blast
qed

lemma all_paths_occurrences:
  assumes "all_paths c g s e minl t maxl = Some (Inr paths)" and "p \<in> set paths"
    and d: "start_end_depth_of c g s e = Inr d"
  shows "int (occurrences p x)
           \<le> max 1 (max (max_path_segment_count g x d) (max_path_segment_count g (- x) d))"
proof -
  let ?B = "\<lambda>W. \<forall>x. int (occurrences W x)
              \<le> max 1 (max (max_path_segment_count g x d) (max_path_segment_count g (- x) d))"
  have "\<forall>p\<in>set paths. ?B p"
  proof (rule all_paths_invariant[where P="?B", OF assms(1)])
    fix ds y
    show "?B [y]"
    proof
      fix x
      have "occurrences [y] x \<le> 1" by (simp add: occurrences_Nil occurrences_Cons)
      then show "int (occurrences [y] x)
           \<le> max 1 (max (max_path_segment_count g x d) (max_path_segment_count g (- x) d))"
        by (simp add: le_max_iff_disj)
    qed
  next
    fix d' W n ds
    assume d': "start_end_depth_of c g s e = Inr d'" and W: "?B W"
      and cnt: "count_so_far W n < max_path_segment_count g n d'"
    from d d' have "d' = d" by simp
    with cnt have cnt': "count_so_far W n < max_path_segment_count g n d" by simp
    show "?B (W @ [n])"
      by (intro allI occurrences_extend[OF W cnt'])
  next
    fix W
    assume W: "?B W"
    show "?B (butlast W)"
    proof
      fix x
      from W have "int (occurrences W x)
           \<le> max 1 (max (max_path_segment_count g x d) (max_path_segment_count g (- x) d))"
        by blast
      then show "int (occurrences (butlast W) x)
           \<le> max 1 (max (max_path_segment_count g x d) (max_path_segment_count g (- x) d))"
        using occurrences_butlast[of W x] by linarith
    qed
  qed
  then show ?thesis using assms(2) by blast
qed

lemma progressive_path_find_walk:
  assumes "progressive_path_find c g s e minl maxl sq sch ex = Some (Inr paths)"
    and "p \<in> set paths"
  shows "successively (\<lambda>a b. linked g a b \<or> linked g (- b) (- a)) p"
proof -
  from progressive_path_find_joined[OF assms] obtain d x where
    x: "joined g d s e x" "p = butlast (tl x)" by blast
  show ?thesis unfolding x(2)
    by (intro successively_butlast successively_tl joined_successively[OF x(1)])
qed

lemma progressive_path_find_occurrences:
  assumes "progressive_path_find c g s e minl maxl sq sch ex = Some (Inr paths)"
    and "p \<in> set paths"
    and d: "start_end_depth_of c g s e = Inr d"
  shows "int (occurrences p y)
           \<le> 2 * max 1 (max (max_path_segment_count g y d) (max_path_segment_count g (- y) d))"
proof -
  from progressive_path_find_joined[OF assms(1,2)] d obtain x where
    x: "joined g d s e x" "p = butlast (tl x)" by auto
  have "occurrences p y \<le> occurrences x y"
    unfolding x(2) using occurrences_butlast[of "tl x" y] occurrences_tl[of x y] by linarith
  then show ?thesis using joined_occurrences[OF x(1), of y] by linarith
qed

text \<open>
  Claim C4, as amended. A path that \<^verbatim>\<open>all_paths\<close> returns does not contain the end
  anchor, and the start anchor, the path and the end anchor form a walk: each reference
  is in the adjacency list of the one before it. In a path that \<^verbatim>\<open>progressive_path_find\<close>
  returns, for each pair of consecutive references \<open>(a, b)\<close>, \<open>b\<close> is in the adjacency list
  of \<open>a\<close> or \<open>-a\<close> is in the adjacency list of \<open>-b\<close> (the same link read on the other
  strand). Nothing is said about the start anchor, which a returned path can contain.
\<close>

theorem returned_paths_are_walks:
  "(all_paths c g s e min_length target_length max_length = Some (Inr paths) \<and> p \<in> set paths
      \<longrightarrow> e \<notin> set p \<and> successively (linked g) (s # p @ [e]))
   \<and> (progressive_path_find c g s e min_length' max_length' sq sch ex = Some (Inr paths')
        \<and> p' \<in> set paths'
      \<longrightarrow> successively (\<lambda>a b. linked g a b \<or> linked g (- b) (- a)) p')"
proof (rule conjI; rule impI)
  assume a: "all_paths c g s e min_length target_length max_length = Some (Inr paths)
               \<and> p \<in> set paths"
  show "e \<notin> set p \<and> successively (linked g) (s # p @ [e])"
    by (rule all_paths_walk[OF a[THEN conjunct1] a[THEN conjunct2]])
next
  assume b: "progressive_path_find c g s e min_length' max_length' sq sch ex
               = Some (Inr paths') \<and> p' \<in> set paths'"
  show "successively (\<lambda>a b. linked g a b \<or> linked g (- b) (- a)) p'"
    by (rule progressive_path_find_walk[OF b[THEN conjunct1] b[THEN conjunct2]])
qed

theorem returned_paths_are_walks_witness:
  "all_paths wide_ctx loop_graph 1 9 0 50 1000 = Some (Inr [[2, 5, 8]])
   \<and> 9 \<notin> set [2, 5, 8::int]
   \<and> successively (linked loop_graph) (1 # [2, 5, 8] @ [9])
   \<and> progressive_path_find wide_ctx loop_graph 1 9 0 1000 ''ACGT'' () 90
       = Some (Inr [[5, 6, 4, 5]])
   \<and> successively (\<lambda>a b. linked loop_graph a b \<or> linked loop_graph (- b) (- a)) [5, 6, 4, 5]"
proof -
  have h1: "all_paths wide_ctx loop_graph 1 9 0 50 1000 = Some (Inr [[2, 5, 8]])"
    by code_simp
  have h2: "progressive_path_find wide_ctx loop_graph 1 9 0 1000 ''ACGT'' () 90
       = Some (Inr [[5, 6, 4, 5]])"
    by code_simp
  note w = returned_paths_are_walks[where c=wide_ctx and g=loop_graph and s=1 and e=9
      and min_length=0 and target_length=50 and max_length=1000 and paths="[[2, 5, 8]]"
      and p="[2, 5, 8]" and min_length'=0 and max_length'=1000 and sq="''ACGT''"
      and sch="()" and ex=90 and paths'="[[5, 6, 4, 5]]" and p'="[5, 6, 4, 5]"]
  from w h1 h2 show ?thesis by simp
qed

text \<open>
  Claim C4 as stated fails. Segment 2 leads back to the start anchor 1, and \<^verbatim>\<open>all_paths\<close>
  returns the path 2, 1 between the start anchor 1 and the end anchor 3.
\<close>

theorem path_through_start_counterexample:
  "all_paths fork_ctx cycle_graph 1 3 0 20 100 = Some (Inr [[], [2, 1]]) \<and> 1 \<in> set [2, 1::int]"
proof -
  have "all_paths fork_ctx cycle_graph 1 3 0 20 100 = Some (Inr [[], [2, 1]])" by code_simp
  then show ?thesis by simp
qed

text \<open>
  Claim C3, as amended. Let \<open>d\<close> be the start/end depth and let the bound of a segment be
  the largest of 1, the cap of its reference and the cap of the negated reference (this is
  the cap itself when the cap does not depend on the sign and is at least 1). In a path that
  \<^verbatim>\<open>all_paths\<close> returns no segment occurs more often than its bound, a reference and its
  negation counted together. In a path that \<^verbatim>\<open>progressive_path_find\<close> returns no segment
  occurs more often than twice its bound: each of the two joined parts keeps the bound,
  the joined path need not.
\<close>

theorem repetition_bounds:
  assumes "start_end_depth_of c g s e = Inr d"
  shows "(all_paths c g s e min_length target_length max_length = Some (Inr paths)
          \<and> p \<in> set paths
        \<longrightarrow> int (occurrences p x)
              \<le> max 1 (max (max_path_segment_count g x d) (max_path_segment_count g (- x) d)))
     \<and> (progressive_path_find c g s e min_length' max_length' sq sch ex = Some (Inr paths')
          \<and> p' \<in> set paths'
        \<longrightarrow> int (occurrences p' x)
              \<le> 2 * max 1 (max (max_path_segment_count g x d)
                              (max_path_segment_count g (- x) d)))"
proof (intro conjI impI)
  assume a: "all_paths c g s e min_length target_length max_length = Some (Inr paths)
               \<and> p \<in> set paths"
  show "int (occurrences p x)
          \<le> max 1 (max (max_path_segment_count g x d) (max_path_segment_count g (- x) d))"
    by (rule all_paths_occurrences[OF a[THEN conjunct1] a[THEN conjunct2] assms])
next
  assume b: "progressive_path_find c g s e min_length' max_length' sq sch ex
               = Some (Inr paths') \<and> p' \<in> set paths'"
  show "int (occurrences p' x)
          \<le> 2 * max 1 (max (max_path_segment_count g x d)
                          (max_path_segment_count g (- x) d))"
    by (rule progressive_path_find_occurrences[OF b[THEN conjunct1] b[THEN conjunct2] assms])
qed

theorem repetition_bounds_witness:
  "start_end_depth_of wide_ctx loop_graph 1 9 = Inr 1
   \<and> all_paths wide_ctx loop_graph 1 9 0 50 1000 = Some (Inr [[2, 5, 8]])
   \<and> int (occurrences [2, 5, 8] 5)
       \<le> max 1 (max (max_path_segment_count loop_graph 5 1)
                   (max_path_segment_count loop_graph (- 5) 1))
   \<and> progressive_path_find wide_ctx loop_graph 1 9 0 1000 ''ACGT'' () 90
       = Some (Inr [[5, 6, 4, 5]])
   \<and> int (occurrences [5, 6, 4, 5] 5)
       \<le> 2 * max 1 (max (max_path_segment_count loop_graph 5 1)
                       (max_path_segment_count loop_graph (- 5) 1))"
proof -
  have d: "start_end_depth_of wide_ctx loop_graph 1 9 = Inr 1" by code_simp
  have h1: "all_paths wide_ctx loop_graph 1 9 0 50 1000 = Some (Inr [[2, 5, 8]])"
    by code_simp
  have h2: "progressive_path_find wide_ctx loop_graph 1 9 0 1000 ''ACGT'' () 90
       = Some (Inr [[5, 6, 4, 5]])"
    by code_simp
  note w = repetition_bounds[OF d, where min_length=0 and target_length=50
      and max_length=1000 and paths="[[2, 5, 8]]" and p="[2, 5, 8]" and x=5
      and min_length'=0 and max_length'=1000 and sq="''ACGT''"
      and sch="()" and ex=90 and paths'="[[5, 6, 4, 5]]" and p'="[5, 6, 4, 5]"]
  from w d h1 h2 show ?thesis by simp
qed

text \<open>
  Claim C3 as stated fails. With a cap of 1 for every segment and a limit of two working
  paths, \<^verbatim>\<open>all_paths\<close> gives up, and the progressive search returns the path 5, 6, 4, 5,
  joined where the two searches meet, in which segment 5 occurs twice.
\<close>

theorem joined_path_exceeds_cap_counterexample:
  "progressive_path_find loop_ctx loop_graph 1 9 0 1000 ''ACGT'' () 90 = Some (Inr [[5, 6, 4, 5]])
   \<and> get_best_paths_for_seq loop_ctx loop_graph 1 9 50 ''ACGT'' () 90
       = Some (Inr ([([5, 6, 4, 5], 100, 10, 100)], True))
   \<and> start_end_depth_of loop_ctx loop_graph 1 9 = Inr 1
   \<and> max_path_segment_count loop_graph 5 1 = 1
   \<and> occurrences [5, 6, 4, 5] 5 = 2"
proof -
  have "progressive_path_find loop_ctx loop_graph 1 9 0 1000 ''ACGT'' () 90
          = Some (Inr [[5, 6, 4, 5]])"
    by code_simp
  moreover have "get_best_paths_for_seq loop_ctx loop_graph 1 9 50 ''ACGT'' () 90
       = Some (Inr ([([5, 6, 4, 5], 100, 10, 100)], True))"
    by code_simp
  moreover have "start_end_depth_of loop_ctx loop_graph 1 9 = Inr 1" by code_simp
  moreover have "max_path_segment_count loop_graph 5 1 = 1" by (simp add: loop_graph_def)
  moreover have "occurrences [5, 6, 4, 5] 5 = 2" by (simp add: occurrences_def)
  ultimately show ?thesis by simp
qed

end
